theory Spec2Isabelle
  imports Main
begin

section \<open>The environment of the caching wrapper\<close>

text \<open>
  \<^verbatim>\<open>neuraxle/steps/caching.py\<close> talks to the operating system through \<^verbatim>\<open>os.path.join\<close>,
  \<^verbatim>\<open>os.path.exists\<close>, \<^verbatim>\<open>os.makedirs\<close>, \<^verbatim>\<open>os.mkdir\<close>, \<^verbatim>\<open>shutil.rmtree\<close> and
  \<^verbatim>\<open>open\<close>, and to \<^verbatim>\<open>pickle\<close>. Path names are strings, as in the source. The file system
  is a map from locations (the list of directory names from the root) to nodes, without
  symbolic links and without permissions. A path is resolved piece by piece against the file system, and every
  directory it passes through has to be there. Every Python exception is a value of
  \<open>error\<close>, and an operation that can raise returns \<open>error + 'a\<close>.
\<close>

type_synonym bytes = string

datatype error =
    AttributeError
  | FileNotFoundError
  | FileExistsError
  | NotADirectoryError
  | IsADirectoryError
  | OSError
  | PicklingError
  | UnpicklingError
  | EOFError

subsection \<open>Path strings\<close>

definition startswith_sep :: "string \<Rightarrow> bool" where
  "startswith_sep p = (case p of [] \<Rightarrow> False | c # _ \<Rightarrow> c = CHR ''/'')"

definition endswith_sep :: "string \<Rightarrow> bool" where
  "endswith_sep p = (p \<noteq> [] \<and> last p = CHR ''/'')"

text \<open>
  \<^verbatim>\<open>posixpath.join(a, b)\<close>: an absolute \<open>b\<close> replaces \<open>a\<close>; otherwise \<open>b\<close> is appended, with
  a separator unless \<open>a\<close> is empty or already ends with one. The three-argument call of
  the source is the two-argument one applied twice.
\<close>

definition os_path_join :: "string \<Rightarrow> string \<Rightarrow> string" where
  "os_path_join a b =
     (if startswith_sep b then b
      else if a = [] \<or> endswith_sep a then a @ b
      else a @ ''/'' @ b)"

text \<open>
  \<^verbatim>\<open>posixpath.split(p)\<close>: the tail is what follows the last separator, the head what
  precedes it, without its trailing separators unless it consists of separators only.
\<close>

definition rstrip_sep :: "string \<Rightarrow> string" where
  "rstrip_sep p = rev (dropWhile (\<lambda>c. c = CHR ''/'') (rev p))"

definition os_path_split :: "string \<Rightarrow> string \<times> string" where
  "os_path_split p =
     (let tail = rev (takeWhile (\<lambda>c. c \<noteq> CHR ''/'') (rev p));
          head = take (length p - length tail) p
      in (if rstrip_sep head = [] then head else rstrip_sep head, tail))"

text \<open>\<^verbatim>\<open>p.split('/')\<close>: the pieces between separators, never an empty list.\<close>

fun split_sep :: "string \<Rightarrow> string list" where
  "split_sep [] = [[]]"
| "split_sep (c # cs) =
     (if c = CHR ''/'' then [] # split_sep cs
      else (case split_sep cs of [] \<Rightarrow> [[c]] | w # ws \<Rightarrow> (c # w) # ws))"

text \<open>The last piece of a path that is not empty, and whether a piece names an entry.\<close>

definition last_piece :: "string \<Rightarrow> string" where
  "last_piece p = (case filter (\<lambda>c. c \<noteq> []) (split_sep p) of [] \<Rightarrow> [] | c # cs \<Rightarrow> last (c # cs))"

definition proper_name :: "string \<Rightarrow> bool" where
  "proper_name c = (c \<noteq> [] \<and> c \<noteq> ''.'' \<and> c \<noteq> ''..'')"

text \<open>One step along a path: empty pieces and \<^verbatim>\<open>.\<close> stay, \<^verbatim>\<open>..\<close> goes up.\<close>

definition walk :: "string list \<Rightarrow> string \<Rightarrow> string list" where
  "walk l c = (if c = [] \<or> c = ''.'' then l else if c = ''..'' then butlast l else l @ [c])"

text \<open>
  Where a path leads from the directory \<open>wd\<close> when every directory on the way is there.
  No operation uses \<open>location\<close>: it names the place in statements about them.
\<close>

definition location :: "string list \<Rightarrow> string \<Rightarrow> string list" where
  "location wd p = foldl walk (if startswith_sep p then [] else wd) (split_sep p)"

subsection \<open>The file system\<close>

datatype node = Dir | File bytes

text \<open>
  The log is ghost state: it records, in order, the calls made to the wrapped unit and
  the mutations of the cache. No function of the model reads it.
\<close>

datatype 'v event = EFlush | EFit | ETransform 'v | EWrite 'v

record 'v world =
  files :: "string list \<Rightarrow> node option"
  cwd :: "string list"
  log :: "'v event list"

text \<open>The root directory always exists.\<close>

definition lookup :: "(string list \<Rightarrow> node option) \<Rightarrow> string list \<Rightarrow> node option" where
  "lookup fs l = (if l = [] then Some Dir else fs l)"

text \<open>
  Path resolution. Before a piece that is not empty is followed, the place reached so far
  has to be a directory: a missing one gives \<^verbatim>\<open>ENOENT\<close>, a regular file \<^verbatim>\<open>ENOTDIR\<close>. The
  place the last piece leads to need not exist.
\<close>

fun resolve ::
  "(string list \<Rightarrow> node option) \<Rightarrow> string list \<Rightarrow> string list \<Rightarrow> error + string list" where
  "resolve fs l [] = Inr l"
| "resolve fs l (c # cs) =
     (if c = [] then resolve fs l cs
      else (case lookup fs l of
              None \<Rightarrow> Inl FileNotFoundError
            | Some (File _) \<Rightarrow> Inl NotADirectoryError
            | Some Dir \<Rightarrow> resolve fs (walk l c) cs))"

definition path_location ::
  "(string list \<Rightarrow> node option) \<Rightarrow> string list \<Rightarrow> string \<Rightarrow> error + string list" where
  "path_location fs wd p = resolve fs (if startswith_sep p then [] else wd) (split_sep p)"

text \<open>
  \<^verbatim>\<open>os.path.exists\<close> is \<^verbatim>\<open>False\<close> where \<^verbatim>\<open>stat\<close> fails; a regular file named with a trailing
  separator is such a case.
\<close>

definition os_path_exists :: "'v world \<Rightarrow> string \<Rightarrow> bool" where
  "os_path_exists w p =
     (p \<noteq> [] \<and>
      (case path_location (files w) (cwd w) p of
         Inl _ \<Rightarrow> False
       | Inr l \<Rightarrow>
           (case lookup (files w) l of
              None \<Rightarrow> False
            | Some Dir \<Rightarrow> True
            | Some (File _) \<Rightarrow> \<not> endswith_sep p)))"

definition mkdir_at ::
  "(string list \<Rightarrow> node option) \<Rightarrow> string list \<Rightarrow> error + (string list \<Rightarrow> node option)" where
  "mkdir_at fs l =
     (if lookup fs l \<noteq> None then Inl FileExistsError
      else (case lookup fs (butlast l) of
              None \<Rightarrow> Inl FileNotFoundError
            | Some (File _) \<Rightarrow> Inl NotADirectoryError
            | Some Dir \<Rightarrow> Inr (fs(l \<mapsto> Dir))))"

definition os_mkdir :: "'v world \<Rightarrow> string \<Rightarrow> (error + unit) \<times> 'v world" where
  "os_mkdir w p =
     (if p = [] then (Inl FileNotFoundError, w)
      else (case path_location (files w) (cwd w) p of
              Inl e \<Rightarrow> (Inl e, w)
            | Inr l \<Rightarrow>
                (case mkdir_at (files w) l of
                   Inl e \<Rightarrow> (Inl e, w)
                 | Inr fs \<Rightarrow> (Inr (), w\<lparr>files := fs\<rparr>))))"

text \<open>
  \<^verbatim>\<open>os.makedirs(name)\<close> with its default \<^verbatim>\<open>exist_ok=False\<close>, as the library has it: the
  head is made first when it does not exist, a \<^verbatim>\<open>FileExistsError\<close> from that is passed
  over, a tail \<^verbatim>\<open>.\<close> ends the call there, and the leaf is made with \<^verbatim>\<open>mkdir\<close>. The
  directories made before a failure stay.
\<close>

definition makedirs_split :: "string \<Rightarrow> string \<times> string" where
  "makedirs_split name =
     (if snd (os_path_split name) = [] then os_path_split (fst (os_path_split name))
      else os_path_split name)"

function os_makedirs :: "'v world \<Rightarrow> string \<Rightarrow> (error + unit) \<times> 'v world" where
  "os_makedirs w name =
     (if fst (makedirs_split name) \<noteq> [] \<and> snd (makedirs_split name) \<noteq> []
         \<and> \<not> os_path_exists w (fst (makedirs_split name))
      then (case os_makedirs w (fst (makedirs_split name)) of
              (Inl e, w1) \<Rightarrow>
                if e = FileExistsError
                then (if snd (makedirs_split name) = ''.'' then (Inr (), w1) else os_mkdir w1 name)
                else (Inl e, w1)
            | (Inr _, w1) \<Rightarrow>
                if snd (makedirs_split name) = ''.'' then (Inr (), w1) else os_mkdir w1 name)
      else os_mkdir w name)"
  by pat_completeness auto

termination
proof (relation "measure (\<lambda>(w, name). length name)")
  show "wf (measure (\<lambda>(w :: 'v world, name :: string). length name))" by simp
next
  fix w :: "'v world" and name :: string
  assume a: "fst (makedirs_split name) \<noteq> [] \<and> snd (makedirs_split name) \<noteq> []
      \<and> \<not> os_path_exists w (fst (makedirs_split name))"
  have strip: "length (rstrip_sep h) \<le> length h" for h
    unfolding rstrip_sep_def using length_dropWhile_le[of _ "rev h"] by simp
  have tail: "length (rev (takeWhile (\<lambda>c. c \<noteq> CHR ''/'') (rev q))) \<le> length q" for q
    using length_takeWhile_le[of _ "rev q"] by simp
  have parts: "length (fst (os_path_split q)) + length (snd (os_path_split q)) \<le> length q" for q
    using strip[of "take (length q - length (rev (takeWhile (\<lambda>c. c \<noteq> CHR ''/'') (rev q)))) q"]
      tail[of q]
    by (auto simp: os_path_split_def Let_def)
  have "length (fst (makedirs_split name)) + length (snd (makedirs_split name)) \<le> length name"
    using parts[of name] parts[of "fst (os_path_split name)"]
    by (simp add: makedirs_split_def)
  with a have "length (fst (makedirs_split name)) < length name"
    by (cases "snd (makedirs_split name)") simp_all
  then show "((w, fst (makedirs_split name)), (w, name)) \<in> measure (\<lambda>(w, name). length name)"
    by simp
qed

declare os_makedirs.simps [simp del]

text \<open>
  \<^verbatim>\<open>shutil.rmtree(p)\<close> with its default \<^verbatim>\<open>ignore_errors=False\<close>: \<^verbatim>\<open>lstat\<close> raises on a path
  that does not resolve or is missing, scanning raises on a regular file; then everything
  below the directory goes, and last the directory itself, with \<^verbatim>\<open>rmdir\<close> on the same path.
  That resolves the path again and refuses one that ends in \<^verbatim>\<open>.\<close> or \<^verbatim>\<open>..\<close> or names
  no entry at all.
\<close>

definition shutil_rmtree :: "'v world \<Rightarrow> string \<Rightarrow> (error + unit) \<times> 'v world" where
  "shutil_rmtree w p =
     (if p = [] then (Inl FileNotFoundError, w)
      else (case path_location (files w) (cwd w) p of
              Inl e \<Rightarrow> (Inl e, w)
            | Inr l \<Rightarrow>
                (case lookup (files w) l of
                   None \<Rightarrow> (Inl FileNotFoundError, w)
                 | Some (File _) \<Rightarrow> (Inl NotADirectoryError, w)
                 | Some Dir \<Rightarrow>
                     (let fs1 = (\<lambda>q. if take (length l) q = l \<and> q \<noteq> l then None else files w q)
                      in case path_location fs1 (cwd w) p of
                           Inl e \<Rightarrow> (Inl e, w\<lparr>files := fs1\<rparr>)
                         | Inr l' \<Rightarrow>
                             if proper_name (last_piece p)
                             then (Inr (), w\<lparr>files := fs1(l' := None)\<rparr>)
                             else (Inl OSError, w\<lparr>files := fs1\<rparr>)))))"

text \<open>\<^verbatim>\<open>open(p, 'rb')\<close> followed by reading the whole file.\<close>

definition open_rb :: "'v world \<Rightarrow> string \<Rightarrow> error + bytes" where
  "open_rb w p =
     (if p = [] then Inl FileNotFoundError
      else (case path_location (files w) (cwd w) p of
              Inl e \<Rightarrow> Inl e
            | Inr l \<Rightarrow>
                (case lookup (files w) l of
                   None \<Rightarrow> Inl FileNotFoundError
                 | Some Dir \<Rightarrow> Inl IsADirectoryError
                 | Some (File bs) \<Rightarrow> if endswith_sep p then Inl NotADirectoryError else Inr bs)))"

text \<open>
  \<^verbatim>\<open>open(p, 'wb')\<close>: the file is created, or truncated when it exists, before a byte is
  written. The handle returned is the location of the file.
\<close>

definition open_wb :: "'v world \<Rightarrow> string \<Rightarrow> (error + string list) \<times> 'v world" where
  "open_wb w p =
     (if p = [] then (Inl FileNotFoundError, w)
      else (case path_location (files w) (cwd w) p of
              Inl e \<Rightarrow> (Inl e, w)
            | Inr l \<Rightarrow>
                if endswith_sep p \<or> lookup (files w) l = Some Dir then (Inl IsADirectoryError, w)
                else (case lookup (files w) (butlast l) of
                        None \<Rightarrow> (Inl FileNotFoundError, w)
                      | Some (File _) \<Rightarrow> (Inl NotADirectoryError, w)
                      | Some Dir \<Rightarrow> (Inr l, w\<lparr>files := (files w)(l \<mapsto> File [])\<rparr>))))"

definition file_write :: "'v world \<Rightarrow> string list \<Rightarrow> bytes \<Rightarrow> 'v world" where
  "file_write w l bs = w\<lparr>files := (files w)(l \<mapsto> File bs)\<rparr>"

subsection \<open>What the source imports\<close>

text \<open>
  The modules \<^verbatim>\<open>neuraxle.base\<close>, \<^verbatim>\<open>neuraxle.pipeline\<close> and \<^verbatim>\<open>neuraxle.steps.misc\<close> and the
  \<^verbatim>\<open>pickle\<close> library are parameters of the model. \<open>pickle_dump\<close> gives the bytes that
  reached the file and the exception that stopped it, if one did; \<open>pickle_load\<close> gives the
  value or the exception. \<open>unit_fit\<close> and \<open>unit_transform\<close> are the two methods of the
  wrapped step and \<open>step_hash\<close> is \<^verbatim>\<open>BaseStep.hash\<close>; these, and the hasher of the wrapper,
  are taken to return: they are functions of their arguments, and the wrapped step does
  not touch the cache directory.
\<close>

record ('v, 'u, 'hp) env =
  VALUE_CACHING :: string
  DEFAULT_CACHE_FOLDER :: string
  Md5Hasher :: "'v \<Rightarrow> string"
  default_hyperparams :: 'hp
  pickle_dump :: "'v list \<Rightarrow> bytes \<times> error option"
  pickle_load :: "bytes \<Rightarrow> error + 'v list"
  unit_fit :: "'u \<Rightarrow> 'v list \<Rightarrow> 'v list \<Rightarrow> 'u"
  unit_transform :: "'u \<Rightarrow> 'v list \<Rightarrow> 'v list"
  step_hash :: "string list \<Rightarrow> 'hp \<Rightarrow> 'v list \<Rightarrow> string list"

record 'v data_container =
  current_ids :: "string list"
  data_inputs :: "'v list"
  expected_outputs :: "'v list"

text \<open>
  Modelled from the spec: the class \<^verbatim>\<open>DataContainer\<close> of \<^verbatim>\<open>neuraxle.base\<close> is not in the
  source. The spec has the container supply its \<open>(identifier, item, expected_output)\<close>
  triples in stable order and take back new outputs and identifiers through two mutators;
  \<open>dc_iter\<close>, \<open>set_data_inputs\<close> and \<open>set_current_ids\<close> are that.
\<close>

definition dc_iter :: "'v data_container \<Rightarrow> (string \<times> 'v \<times> 'v) list" where
  "dc_iter dc = zip (current_ids dc) (zip (data_inputs dc) (expected_outputs dc))"

definition set_data_inputs :: "'v data_container \<Rightarrow> 'v list \<Rightarrow> 'v data_container" where
  "set_data_inputs dc xs = dc\<lparr>data_inputs := xs\<rparr>"

definition set_current_ids :: "'v data_container \<Rightarrow> string list \<Rightarrow> 'v data_container" where
  "set_current_ids dc ids = dc\<lparr>current_ids := ids\<rparr>"

section \<open>ValueCachingWrapper and PickleValueCachingWrapper\<close>

text \<open>
  The attributes of the object. \<open>checkpoint_path\<close> is \<open>None\<close> while the attribute does
  not exist: reading it then raises \<^verbatim>\<open>AttributeError\<close>.
\<close>

record ('v, 'u, 'hp) wrapper =
  wrapped :: 'u
  value_hasher :: "'v \<Rightarrow> string"
  cache_folder :: string
  hyperparams :: 'hp
  checkpoint_path :: "string option"

definition init ::
  "('v, 'u, 'hp) env \<Rightarrow> 'u \<Rightarrow> string option \<Rightarrow> ('v \<Rightarrow> string) option \<Rightarrow> ('v, 'u, 'hp) wrapper" where
  "init E wrapped_step folder hasher =
     \<lparr>wrapped = wrapped_step,
      value_hasher = (case hasher of None \<Rightarrow> Md5Hasher E | Some h \<Rightarrow> h),
      cache_folder = (case folder of None \<Rightarrow> DEFAULT_CACHE_FOLDER E | Some f \<Rightarrow> f),
      hyperparams = default_hyperparams E,
      checkpoint_path = None\<rparr>"

definition hash_value :: "('v, 'u, 'hp) wrapper \<Rightarrow> 'v \<Rightarrow> string" where
  "hash_value self data_input = value_hasher self data_input"

definition get_cache_path_for :: "('v, 'u, 'hp) wrapper \<Rightarrow> 'v \<Rightarrow> error + string" where
  "get_cache_path_for self data_input =
     (let h = hash_value self data_input in
      case checkpoint_path self of
        None \<Rightarrow> Inl AttributeError
      | Some cp \<Rightarrow> Inr (os_path_join cp (h @ ''.pickle'')))"

definition create_checkpoint_path ::
  "('v, 'u, 'hp) env \<Rightarrow> ('v, 'u, 'hp) wrapper \<Rightarrow> 'v world \<Rightarrow> string
     \<Rightarrow> (error + string) \<times> ('v, 'u, 'hp) wrapper \<times> 'v world" where
  "create_checkpoint_path E self w step_path =
     (let cp = os_path_join (os_path_join (cache_folder self) step_path) (VALUE_CACHING E);
          self' = self\<lparr>checkpoint_path := Some cp\<rparr>
      in if \<not> os_path_exists w cp
         then (case os_makedirs w cp of
                 (Inl e, w') \<Rightarrow> (Inl e, self', w')
               | (Inr _, w') \<Rightarrow> (Inr cp, self', w'))
         else (Inr cp, self', w))"

definition setup_step ::
  "('v, 'u, 'hp) env \<Rightarrow> ('v, 'u, 'hp) wrapper \<Rightarrow> 'v world \<Rightarrow> string
     \<Rightarrow> (error + unit) \<times> ('v, 'u, 'hp) wrapper \<times> 'v world" where
  "setup_step E self w step_path =
     (case create_checkpoint_path E self w step_path of
        (Inl e, self', w') \<Rightarrow> (Inl e, self', w')
      | (Inr _, self', w') \<Rightarrow> (Inr (), self', w'))"

definition flush_cache :: "('v, 'u, 'hp) wrapper \<Rightarrow> 'v world \<Rightarrow> (error + unit) \<times> 'v world" where
  "flush_cache self w =
     (case checkpoint_path self of
        None \<Rightarrow> (Inl AttributeError, w)
      | Some cp \<Rightarrow>
          (case shutil_rmtree w cp of
             (Inl e, w1) \<Rightarrow> (Inl e, w1)
           | (Inr _, w1) \<Rightarrow>
               (case os_mkdir w1 cp of
                  (Inl e, w2) \<Rightarrow> (Inl e, w2)
                | (Inr _, w2) \<Rightarrow> (Inr (), w2\<lparr>log := log w2 @ [EFlush]\<rparr>))))"

definition read_cache ::
  "('v, 'u, 'hp) env \<Rightarrow> ('v, 'u, 'hp) wrapper \<Rightarrow> 'v world \<Rightarrow> 'v \<Rightarrow> error + 'v list" where
  "read_cache E self w data_input =
     (case get_cache_path_for self data_input of
        Inl e \<Rightarrow> Inl e
      | Inr p \<Rightarrow> (case open_rb w p of Inl e \<Rightarrow> Inl e | Inr bs \<Rightarrow> pickle_load E bs))"

definition write_cache ::
  "('v, 'u, 'hp) env \<Rightarrow> ('v, 'u, 'hp) wrapper \<Rightarrow> 'v world \<Rightarrow> 'v \<Rightarrow> 'v list
     \<Rightarrow> (error + unit) \<times> 'v world" where
  "write_cache E self w data_input output =
     (case get_cache_path_for self data_input of
        Inl e \<Rightarrow> (Inl e, w)
      | Inr p \<Rightarrow>
          (case open_wb w p of
             (Inl e, w1) \<Rightarrow> (Inl e, w1)
           | (Inr fd, w1) \<Rightarrow>
               (let w2 = file_write (w1\<lparr>log := log w1 @ [EWrite data_input]\<rparr>) fd
                           (fst (pickle_dump E output))
                in case snd (pickle_dump E output) of
                     Some e \<Rightarrow> (Inl e, w2)
                   | None \<Rightarrow> (Inr (), w2))))"

definition contains_cache_for :: "('v, 'u, 'hp) wrapper \<Rightarrow> 'v world \<Rightarrow> 'v \<Rightarrow> error + bool" where
  "contains_cache_for self w data_input =
     (case get_cache_path_for self data_input of
        Inl e \<Rightarrow> Inl e
      | Inr p \<Rightarrow> Inr (os_path_exists w p))"

text \<open>
  The loop of \<^verbatim>\<open>_transform_with_cache\<close>, with \<open>outputs\<close> as its accumulator. A call of
  the wrapped unit is logged where it is made.
\<close>

fun transform_loop ::
  "('v, 'u, 'hp) env \<Rightarrow> ('v, 'u, 'hp) wrapper \<Rightarrow> 'v world \<Rightarrow> (string \<times> 'v \<times> 'v) list \<Rightarrow> 'v list
     \<Rightarrow> (error + 'v list) \<times> 'v world" where
  "transform_loop E self w [] outputs = (Inr outputs, w)"
| "transform_loop E self w ((current_id, data_input, expected_output) # rest) outputs =
     (case contains_cache_for self w data_input of
        Inl e \<Rightarrow> (Inl e, w)
      | Inr True \<Rightarrow>
          (case read_cache E self w data_input of
             Inl e \<Rightarrow> (Inl e, w)
           | Inr cached \<Rightarrow> transform_loop E self w rest (outputs @ cached))
      | Inr False \<Rightarrow>
          (let output = unit_transform E (wrapped self) [data_input];
               w1 = w\<lparr>log := log w @ [ETransform data_input]\<rparr>
           in case write_cache E self w1 data_input output of
                (Inl e, w2) \<Rightarrow> (Inl e, w2)
              | (Inr _, w2) \<Rightarrow> transform_loop E self w2 rest (outputs @ output)))"

definition transform_with_cache ::
  "('v, 'u, 'hp) env \<Rightarrow> ('v, 'u, 'hp) wrapper \<Rightarrow> 'v world \<Rightarrow> 'v data_container
     \<Rightarrow> (error + 'v list) \<times> 'v world" where
  "transform_with_cache E self w data_container =
     transform_loop E self w (dc_iter data_container) []"

definition handle_transform ::
  "('v, 'u, 'hp) env \<Rightarrow> ('v, 'u, 'hp) wrapper \<Rightarrow> 'v world \<Rightarrow> 'v data_container
     \<Rightarrow> (error + 'v data_container) \<times> 'v world" where
  "handle_transform E self w data_container =
     (case transform_with_cache E self w data_container of
        (Inl e, w') \<Rightarrow> (Inl e, w')
      | (Inr outputs, w') \<Rightarrow>
          (let dc1 = set_data_inputs data_container outputs;
               ids = step_hash E (current_ids dc1) (hyperparams self) outputs
           in (Inr (set_current_ids dc1 ids), w')))"

definition handle_fit_transform ::
  "('v, 'u, 'hp) env \<Rightarrow> ('v, 'u, 'hp) wrapper \<Rightarrow> 'v world \<Rightarrow> 'v data_container
     \<Rightarrow> (error + 'v data_container) \<times> ('v, 'u, 'hp) wrapper \<times> 'v world" where
  "handle_fit_transform E self w data_container =
     (case flush_cache self w of
        (Inl e, w1) \<Rightarrow> (Inl e, self, w1)
      | (Inr _, w1) \<Rightarrow>
          (let self' = self\<lparr>wrapped := unit_fit E (wrapped self) (data_inputs data_container)
                                         (expected_outputs data_container)\<rparr>;
               w2 = w1\<lparr>log := log w1 @ [EFit]\<rparr>
           in case transform_with_cache E self' w2 data_container of
                (Inl e, w3) \<Rightarrow> (Inl e, self', w3)
              | (Inr outputs, w3) \<Rightarrow>
                  (let dc1 = set_data_inputs data_container outputs;
                       ids = step_hash E (current_ids dc1) (hyperparams self') outputs
                   in (Inr (set_current_ids dc1 ids), self', w3))))"

section \<open>Notions used to state the properties\<close>

text \<open>The item of a triple of the batch, and the items of a container in iteration order.\<close>

definition item :: "string \<times> 'v \<times> 'v \<Rightarrow> 'v" where
  "item t = fst (snd t)"

definition batch_items :: "'v data_container \<Rightarrow> 'v list" where
  "batch_items dc = map item (dc_iter dc)"

text \<open>
  The location of the cache file of an item: where the path given by \<open>get_cache_path_for\<close>
  leads when it resolves.
\<close>

definition cache_key :: "('v, 'u, 'hp) wrapper \<Rightarrow> 'v world \<Rightarrow> 'v \<Rightarrow> string list" where
  "cache_key self w x =
     (case get_cache_path_for self x of Inl _ \<Rightarrow> [] | Inr p \<Rightarrow> location (cwd w) p)"


text \<open>A location holds something: a file or a directory.\<close>

definition has_entry :: "(string list \<Rightarrow> node option) \<Rightarrow> string list \<Rightarrow> bool" where
  "has_entry fs l = (lookup fs l \<noteq> None)"

text \<open>
  A path that never goes up and ends in a name: no piece is \<^verbatim>\<open>..\<close>, and the last piece that
  is not empty is not \<^verbatim>\<open>.\<close> either.
\<close>

definition simple_path :: "string \<Rightarrow> bool" where
  "simple_path p =
     (list_all (\<lambda>c. c \<noteq> ''..'') (split_sep p) \<and> proper_name (last_piece p))"


text \<open>The serializer gives back what it was given.\<close>

definition round_trips :: "('v, 'u, 'hp) env \<Rightarrow> 'v list \<Rightarrow> bool" where
  "round_trips E y = (pickle_load E (fst (pickle_dump E y)) = Inr y)"

text \<open>The arguments of the logged calls of the wrapped unit's \<open>transform\<close>, in order.\<close>

fun transform_calls :: "'v event list \<Rightarrow> 'v list" where
  "transform_calls [] = []"
| "transform_calls (ETransform x # es) = x # transform_calls es"
| "transform_calls (EFlush # es) = transform_calls es"
| "transform_calls (EFit # es) = transform_calls es"
| "transform_calls (EWrite x # es) = transform_calls es"

text \<open>
  The items of a batch that find no entry: \<open>present\<close> tells the keys that have one
  before the item is reached, and an item that misses adds its key.
\<close>

fun misses :: "('a \<Rightarrow> 'k) \<Rightarrow> ('k \<Rightarrow> bool) \<Rightarrow> 'a list \<Rightarrow> 'a list" where
  "misses key present [] = []"
| "misses key present (x # xs) =
     (if present (key x) then misses key present xs
      else x # misses key (present(key x := True)) xs)"

fun miss_events :: "'v list \<Rightarrow> 'v event list" where
  "miss_events [] = []"
| "miss_events (x # xs) = ETransform x # EWrite x # miss_events xs"

text \<open>
  What the cache owes an item of a batch: the entry it holds for the item when the call
  starts, and otherwise the wrapped unit's output for the first item of the batch that
  has the same cache file.
\<close>

definition served ::
  "('v, 'u, 'hp) env \<Rightarrow> ('v, 'u, 'hp) wrapper \<Rightarrow> 'v world \<Rightarrow> 'v list \<Rightarrow> 'v \<Rightarrow> 'v list option" where
  "served E self w xs x =
     (if contains_cache_for self w x = Inr True
      then (case read_cache E self w x of Inl _ \<Rightarrow> None | Inr cached \<Rightarrow> Some cached)
      else (case find (\<lambda>y. cache_key self w y = cache_key self w x) xs of
              None \<Rightarrow> None
            | Some y \<Rightarrow> Some (unit_transform E (wrapped self) [y])))"

subsection \<open>Notions used in the proofs\<close>

text \<open>What reading the entry of an item gives, the empty list when reading fails.\<close>

definition cached_output ::
  "('v, 'u, 'hp) env \<Rightarrow> ('v, 'u, 'hp) wrapper \<Rightarrow> 'v world \<Rightarrow> 'v \<Rightarrow> 'v list" where
  "cached_output E self w x = (case read_cache E self w x of Inl _ \<Rightarrow> [] | Inr out \<Rightarrow> out)"

text \<open>The world after a miss on \<open>x\<close>: the unit was called and its output written.\<close>

definition miss_world ::
  "('v, 'u, 'hp) env \<Rightarrow> ('v, 'u, 'hp) wrapper \<Rightarrow> 'v world \<Rightarrow> 'v \<Rightarrow> 'v world" where
  "miss_world E self w x =
     w\<lparr>files := (files w)(cache_key self w x \<mapsto>
                   File (fst (pickle_dump E (unit_transform E (wrapped self) [x])))),
       log := log w @ [ETransform x, EWrite x]\<rparr>"

text \<open>The cache path of an item resolves: every directory on the way to its file is there.\<close>

definition reach :: "('v, 'u, 'hp) wrapper \<Rightarrow> 'v world \<Rightarrow> 'v \<Rightarrow> bool" where
  "reach self w x =
     (case get_cache_path_for self x of
        Inl _ \<Rightarrow> False
      | Inr p \<Rightarrow> (case path_location (files w) (cwd w) p of Inl _ \<Rightarrow> False | Inr _ \<Rightarrow> True))"

subsection \<open>A small instance\<close>

text \<open>
  Items and outputs are characters and the wrapped unit is a function on characters.
  The serializer refuses a list with \<open>CHR ''!''\<close> in it before it has written a byte, as
  \<^verbatim>\<open>pickle.dump\<close> does on a value it cannot pickle, and the deserializer fails with
  \<^verbatim>\<open>EOFError\<close> on input that stops early, as \<^verbatim>\<open>pickle.load\<close> does.
\<close>

definition toy_dump :: "string \<Rightarrow> bytes \<times> error option" where
  "toy_dump xs =
     (if CHR ''!'' \<in> set xs then ([], Some PicklingError) else (CHR ''P'' # xs @ ''.'', None))"

definition toy_load :: "bytes \<Rightarrow> error + string" where
  "toy_load bs =
     (case bs of
        [] \<Rightarrow> Inl EOFError
      | c # r \<Rightarrow>
          if c \<noteq> CHR ''P'' then Inl UnpicklingError
          else if r \<noteq> [] \<and> last r = CHR ''.'' then Inr (butlast r)
          else Inl EOFError)"

definition toy_env :: "(char, char \<Rightarrow> char, unit) env" where
  "toy_env =
     \<lparr>VALUE_CACHING = ''v'', DEFAULT_CACHE_FOLDER = ''cache'',
      Md5Hasher = (\<lambda>c. [c]), default_hyperparams = (),
      pickle_dump = toy_dump, pickle_load = toy_load,
      unit_fit = (\<lambda>u xs ys. u), unit_transform = (\<lambda>u xs. map u xs),
      step_hash = (\<lambda>ids hp outs. ids)\<rparr>"

definition shout :: "char \<Rightarrow> char" where
  "shout c = (if c = CHR ''a'' then CHR ''A'' else if c = CHR ''b'' then CHR ''B'' else c)"

text \<open>A fresh wrapper, the same wrapper after its set-up, and the world that set-up leaves.\<close>

definition toy_new :: "(char, char \<Rightarrow> char, unit) wrapper" where
  "toy_new = init toy_env shout None None"

definition toy_self :: "(char, char \<Rightarrow> char, unit) wrapper" where
  "toy_self = toy_new\<lparr>checkpoint_path := Some ''cache/s/v''\<rparr>"

definition toy_bare :: "char world" where
  "toy_bare = \<lparr>files = Map.empty, cwd = [], log = []\<rparr>"

definition toy_world :: "char world" where
  "toy_world =
     \<lparr>files = [[''cache''] \<mapsto> Dir, [''cache'', ''s''] \<mapsto> Dir, [''cache'', ''s'', ''v''] \<mapsto> Dir],
      cwd = [], log = []\<rparr>"

definition toy_batch :: "string \<Rightarrow> char data_container" where
  "toy_batch xs =
     \<lparr>current_ids = map (\<lambda>x. ''id'') xs, data_inputs = xs, expected_outputs = xs\<rparr>"

text \<open>
  Worlds after some use: one with entries for \<open>CHR ''a''\<close> and \<open>CHR ''c''\<close>, one with an
  entry for \<open>CHR ''b''\<close> cut short; a wrapper set up with the step path \<^verbatim>\<open>s/v/..\<close>, one whose
  hasher gives a path that leaves the checkpoint directory, and one whose hasher sends every
  item to one key.
\<close>

definition toy_half :: "char world" where
  "toy_half = toy_world\<lparr>files := (files toy_world)
      ([''cache'', ''s'', ''v'', ''a.pickle''] \<mapsto> File ''PX.'',
       [''cache'', ''s'', ''v'', ''c.pickle''] \<mapsto> File ''PZ.'')\<rparr>"

definition toy_corrupt :: "char world" where
  "toy_corrupt = toy_world\<lparr>files := (files toy_world)
      ([''cache'', ''s'', ''v'', ''b.pickle''] \<mapsto> File ''PB'')\<rparr>"

definition dotdot_self :: "(char, char \<Rightarrow> char, unit) wrapper" where
  "dotdot_self = toy_new\<lparr>checkpoint_path := Some ''cache/s/v/../v''\<rparr>"



definition toy_blocked :: "char world" where
  "toy_blocked = toy_bare\<lparr>files := [[''cache''] \<mapsto> File ''x'']\<rparr>"

definition same_hash_self :: "(char, char \<Rightarrow> char, unit) wrapper" where
  "same_hash_self = toy_self\<lparr>value_hasher := (\<lambda>c. ''k'')\<rparr>"

section \<open>Paths\<close>





lemma os_path_join_nonempty: "b \<noteq> [] \<Longrightarrow> os_path_join a b \<noteq> []"
  by (simp add: os_path_join_def)


lemma get_cache_path_for_nonempty: "get_cache_path_for self x = Inr p \<Longrightarrow> p \<noteq> []"
  by (auto simp: get_cache_path_for_def Let_def os_path_join_nonempty split: option.splits)

lemma entry_path_no_sep:
  "\<not> endswith_sep (os_path_join cp (h @ ''.pickle''))"
proof -
  define n where "n = h @ ''.pickle''"
  have n: "n \<noteq> []" "last n = CHR ''e''" by (simp_all add: n_def)
  then have "last (os_path_join cp n) = CHR ''e''"
    by (simp add: os_path_join_def)
  then show ?thesis by (simp add: endswith_sep_def n_def)
qed

lemma get_cache_path_for_no_sep: "get_cache_path_for self x = Inr p \<Longrightarrow> \<not> endswith_sep p"
  by (auto simp: get_cache_path_for_def Let_def entry_path_no_sep split: option.splits)

lemma resolve_walk: "resolve fs l cs = Inr r \<Longrightarrow> r = foldl walk l cs"
proof (induction cs arbitrary: l)
  case Nil
  then show ?case by simp
next
  case (Cons c cs)
  show ?case
  proof (cases "c = []")
    case True
    with Cons show ?thesis by (simp add: walk_def)
  next
    case False
    with Cons.prems have "resolve fs (walk l c) cs = Inr r"
      by (auto split: option.splits node.splits)
    from Cons.IH[OF this] show ?thesis by simp
  qed
qed

lemma path_location_location: "path_location fs wd p = Inr l \<Longrightarrow> l = location wd p"
  unfolding path_location_def location_def by (rule resolve_walk)

lemma lookup_dirs:
  "\<forall>q. (fs' q = Some Dir) = (fs q = Some Dir) \<Longrightarrow> (lookup fs' l = Some Dir) = (lookup fs l = Some Dir)"
  by (simp add: lookup_def)

lemma resolve_dirs:
  assumes "\<forall>q. (fs' q = Some Dir) = (fs q = Some Dir)"
  shows "(resolve fs' l cs = Inr r) = (resolve fs l cs = Inr r)"
proof (induction cs arbitrary: l)
  case Nil
  show ?case by simp
next
  case (Cons c cs)
  show ?case
  proof (cases "c = []")
    case True
    then show ?thesis using Cons.IH by simp
  next
    case c: False
    show ?thesis
    proof (cases "lookup fs l = Some Dir")
      case True
      with lookup_dirs[OF assms, of l] have "lookup fs' l = Some Dir" by simp
      with True c show ?thesis using Cons.IH by simp
    next
      case False
      with lookup_dirs[OF assms, of l] have f': "lookup fs' l \<noteq> Some Dir" by simp
      from False c have "resolve fs l (c # cs) \<noteq> Inr r"
        by (auto split: option.splits node.splits)
      moreover from f' c have "resolve fs' l (c # cs) \<noteq> Inr r"
        by (auto split: option.splits node.splits)
      ultimately show ?thesis by simp
    qed
  qed
qed

lemma path_location_dirs:
  assumes "\<forall>q. (fs' q = Some Dir) = (fs q = Some Dir)"
  shows "(path_location fs' wd p = Inr l) = (path_location fs wd p = Inr l)"
  unfolding path_location_def by (rule resolve_dirs[OF assms])

section \<open>One item of the loop\<close>

lemma cache_key_path:
  "get_cache_path_for self x = Inr p \<Longrightarrow> cache_key self w x = location (cwd w) p"
  by (simp add: cache_key_def)

lemma cache_key_cwd: "cwd w' = cwd w \<Longrightarrow> cache_key self w' x = cache_key self w x"
  by (simp add: cache_key_def split: sum.splits)

lemma path_defined: "checkpoint_path self = Some cp \<Longrightarrow> \<exists>p. get_cache_path_for self x = Inr p \<and> p \<noteq> []"
  by (simp add: get_cache_path_for_def Let_def os_path_join_nonempty)

lemma reachD:
  assumes "reach self w x"
  shows "\<exists>p. get_cache_path_for self x = Inr p \<and> p \<noteq> [] \<and> \<not> endswith_sep p
      \<and> path_location (files w) (cwd w) p = Inr (cache_key self w x)"
proof -
  from assms obtain p l where p: "get_cache_path_for self x = Inr p"
    and l: "path_location (files w) (cwd w) p = Inr l"
    by (auto simp: reach_def split: sum.splits)
  from path_location_location[OF l] p have "l = cache_key self w x" by (simp add: cache_key_def)
  with p l get_cache_path_for_nonempty[OF p] get_cache_path_for_no_sep[OF p] show ?thesis by blast
qed

lemma reach_dirs:
  assumes "cwd w' = cwd w" "\<forall>q. (files w' q = Some Dir) = (files w q = Some Dir)"
  shows "reach self w' x = reach self w x"
proof (cases "get_cache_path_for self x")
  case (Inl e)
  then show ?thesis by (simp add: reach_def)
next
  case (Inr p)
  have "(\<exists>l. path_location (files w') (cwd w') p = Inr l) = (\<exists>l. path_location (files w) (cwd w) p = Inr l)"
    using path_location_dirs[OF assms(2), of "cwd w" p] assms(1) by simp
  with Inr show ?thesis
    by (auto simp: reach_def split: sum.splits)
qed

lemma contains_eq:
  assumes "checkpoint_path self = Some cp"
  shows "contains_cache_for self w x =
     Inr (reach self w x \<and> lookup (files w) (cache_key self w x) \<noteq> None)"
proof (cases "reach self w x")
  case True
  from reachD[OF this] obtain p where "get_cache_path_for self x = Inr p" "p \<noteq> []"
    "\<not> endswith_sep p" "path_location (files w) (cwd w) p = Inr (cache_key self w x)" by blast
  with True show ?thesis
    by (auto simp: contains_cache_for_def os_path_exists_def split: option.splits node.splits)
next
  case False
  from path_defined[OF assms] obtain p where p: "get_cache_path_for self x = Inr p" by blast
  with False have "\<exists>e. path_location (files w) (cwd w) p = Inl e"
    by (auto simp: reach_def split: sum.splits)
  with p False show ?thesis
    by (auto simp: contains_cache_for_def os_path_exists_def)
qed

lemma read_eq:
  assumes "reach self w x"
  shows "read_cache E self w x =
     (case lookup (files w) (cache_key self w x) of
        None \<Rightarrow> Inl FileNotFoundError
      | Some Dir \<Rightarrow> Inl IsADirectoryError
      | Some (File bs) \<Rightarrow> pickle_load E bs)"
proof -
  from reachD[OF assms] obtain p where "get_cache_path_for self x = Inr p" "p \<noteq> []"
    "\<not> endswith_sep p" "path_location (files w) (cwd w) p = Inr (cache_key self w x)" by blast
  then show ?thesis
    by (simp add: read_cache_def open_rb_def split: option.splits node.splits)
qed

lemma open_wb_result:
  assumes "open_wb w p = (r, w1)"
  shows "(\<exists>e. r = Inl e \<and> w1 = w)
       \<or> (p \<noteq> [] \<and> path_location (files w) (cwd w) p = Inr (location (cwd w) p)
            \<and> location (cwd w) p \<noteq> [] \<and> lookup (files w) (location (cwd w) p) \<noteq> Some Dir
            \<and> r = Inr (location (cwd w) p)
            \<and> w1 = w\<lparr>files := (files w)(location (cwd w) p \<mapsto> File [])\<rparr>)"
proof (cases "p = []")
  case True
  with assms show ?thesis by (auto simp: open_wb_def)
next
  case ne: False
  show ?thesis
  proof (cases "path_location (files w) (cwd w) p")
    case (Inl e)
    with assms ne have "r = Inl e \<and> w1 = w" by (simp add: open_wb_def)
    then show ?thesis by blast
  next
    case (Inr l)
    from path_location_location[OF Inr] have l: "l = location (cwd w) p" .
    show ?thesis
    proof (cases "endswith_sep p \<or> lookup (files w) l = Some Dir")
      case True
      with assms ne Inr show ?thesis by (auto simp: open_wb_def)
    next
      case False
      then have nl: "l \<noteq> []" by (auto simp: lookup_def)
      show ?thesis
      proof (cases "lookup (files w) (butlast l)")
        case None
        with assms ne Inr False show ?thesis by (auto simp: open_wb_def)
      next
        case (Some n)
        with assms ne Inr False nl l show ?thesis by (cases n) (auto simp: open_wb_def)
      qed
    qed
  qed
qed

lemma write_cache_success:
  assumes "write_cache E self w x y = (Inr u, w')"
  shows "reach self w x \<and> cache_key self w x \<noteq> []
      \<and> lookup (files w) (cache_key self w x) \<noteq> Some Dir \<and> snd (pickle_dump E y) = None
      \<and> w' = w\<lparr>files := (files w)(cache_key self w x \<mapsto> File (fst (pickle_dump E y))),
                log := log w @ [EWrite x]\<rparr>"
proof -
  from assms obtain p where p: "get_cache_path_for self x = Inr p"
    by (auto simp: write_cache_def split: sum.splits)
  have key: "cache_key self w x = location (cwd w) p" using p by (simp add: cache_key_def)
  from assms p obtain fd w1 where o: "open_wb w p = (Inr fd, w1)"
    by (cases "open_wb w p") (auto simp: write_cache_def split: sum.splits)
  from open_wb_result[OF o] have ok: "path_location (files w) (cwd w) p = Inr (location (cwd w) p)"
    "location (cwd w) p \<noteq> []" "lookup (files w) (location (cwd w) p) \<noteq> Some Dir"
    "fd = location (cwd w) p" "w1 = w\<lparr>files := (files w)(location (cwd w) p \<mapsto> File [])\<rparr>"
    by auto
  from p ok(1) have "reach self w x" by (simp add: reach_def)
  moreover from assms p o have "snd (pickle_dump E y) = None"
    and "w' = file_write (w1\<lparr>log := log w1 @ [EWrite x]\<rparr>) fd (fst (pickle_dump E y))"
    by (auto simp: write_cache_def Let_def split: option.splits)
  ultimately show ?thesis using ok key by (simp add: file_write_def)
qed

lemma write_cache_result:
  assumes "write_cache E self w x y = (Inr u, w')"
  shows "cache_key self w x \<noteq> [] \<and> snd (pickle_dump E y) = None \<and>
     w' = w\<lparr>files := (files w)(cache_key self w x \<mapsto> File (fst (pickle_dump E y))),
            log := log w @ [EWrite x]\<rparr>"
  using write_cache_success[OF assms] by simp

lemma write_cache_frame:
  assumes "write_cache E self w x y = (r, w')"
  shows "cwd w' = cwd w \<and> (\<forall>l. l \<noteq> cache_key self w x \<longrightarrow> files w' l = files w l)
     \<and> (\<forall>q. (files w' q = Some Dir) = (files w q = Some Dir))"
proof (cases "get_cache_path_for self x")
  case (Inl e)
  with assms show ?thesis by (simp add: write_cache_def)
next
  case (Inr p)
  have key: "cache_key self w x = location (cwd w) p" using Inr by (simp add: cache_key_def)
  obtain r1 w1 where o: "open_wb w p = (r1, w1)" by fastforce
  from open_wb_result[OF o] show ?thesis
  proof
    assume "\<exists>e. r1 = Inl e \<and> w1 = w"
    with assms Inr o show ?thesis by (auto simp: write_cache_def)
  next
    assume ok: "p \<noteq> [] \<and> path_location (files w) (cwd w) p = Inr (location (cwd w) p)
            \<and> location (cwd w) p \<noteq> [] \<and> lookup (files w) (location (cwd w) p) \<noteq> Some Dir
            \<and> r1 = Inr (location (cwd w) p)
            \<and> w1 = w\<lparr>files := (files w)(location (cwd w) p \<mapsto> File [])\<rparr>"
    then have nd: "files w (cache_key self w x) \<noteq> Some Dir"
      by (auto simp: key lookup_def split: if_splits)
    from assms Inr o ok have w': "w' = w\<lparr>files := (files w)(cache_key self w x \<mapsto>
        File (fst (pickle_dump E y))), log := log w @ [EWrite x]\<rparr>"
      by (auto simp: write_cache_def Let_def file_write_def key split: option.splits)
    show ?thesis unfolding w' using nd by auto
  qed
qed

lemma write_cache_unreached:
  assumes "\<not> reach self w x"
  shows "\<exists>e. write_cache E self w x y = (Inl e, w)"
proof (cases "get_cache_path_for self x")
  case (Inl e)
  then show ?thesis by (simp add: write_cache_def)
next
  case (Inr p)
  obtain r1 w1 where o: "open_wb w p = (r1, w1)" by fastforce
  from open_wb_result[OF o] assms Inr have "\<exists>e. r1 = Inl e \<and> w1 = w"
    by (auto simp: reach_def)
  with Inr o show ?thesis by (auto simp: write_cache_def)
qed

lemma write_cache_log:
  assumes "write_cache E self w x y = (r, w')"
  shows "log w' = log w \<or> log w' = log w @ [EWrite x]"
proof (cases "get_cache_path_for self x")
  case (Inl e)
  with assms show ?thesis by (simp add: write_cache_def)
next
  case (Inr p)
  obtain r1 w1 where o: "open_wb w p = (r1, w1)" by fastforce
  from open_wb_result[OF o] have w1: "log w1 = log w" by auto
  show ?thesis
  proof (cases r1)
    case (Inl e)
    with assms Inr o w1 show ?thesis by (simp add: write_cache_def)
  next
    case fd: (Inr fd)
    with assms Inr o w1 show ?thesis
      by (auto simp: write_cache_def Let_def file_write_def split: option.splits)
  qed
qed

lemma loop_no_path:
  "checkpoint_path self = None \<Longrightarrow> ts \<noteq> [] \<Longrightarrow>
     transform_loop E self w ts acc = (Inl AttributeError, w)"
  by (cases ts) (auto simp: contains_cache_for_def get_cache_path_for_def)

lemma loop_frame:
  "transform_loop E self w ts acc = (r, w') \<Longrightarrow>
     cwd w' = cwd w \<and> (\<forall>l. files w l \<noteq> None \<longrightarrow> files w' l = files w l)
     \<and> (\<forall>q. (files w' q = Some Dir) = (files w q = Some Dir))"
proof (induction ts arbitrary: w acc)
  case Nil
  then show ?case by simp
next
  case (Cons t ts)
  obtain i x e where t: "t = (i, x, e)" by (cases t)
  show ?case
  proof (cases "checkpoint_path self")
    case None
    with Cons.prems show ?thesis using loop_no_path[of self "t # ts" E w acc] by simp
  next
    case (Some cp)
    note c = contains_eq[OF Some, of w x]
    show ?thesis
    proof (cases "reach self w x \<and> lookup (files w) (cache_key self w x) \<noteq> None")
      case True
      with c have ct: "contains_cache_for self w x = Inr True" by simp
      show ?thesis
      proof (cases "read_cache E self w x")
        case (Inl err)
        with Cons.prems ct t show ?thesis by simp
      next
        case (Inr cached)
        with Cons.prems ct t have "transform_loop E self w ts (acc @ cached) = (r, w')" by simp
        then show ?thesis by (rule Cons.IH)
      qed
    next
      case False
      with c have cf: "contains_cache_for self w x = Inr False" by auto
      let ?w1 = "w\<lparr>log := log w @ [ETransform x]\<rparr>"
      let ?out = "unit_transform E (wrapped self) [x]"
      obtain r2 w2 where wr: "write_cache E self ?w1 x ?out = (r2, w2)" by fastforce
      from write_cache_frame[OF wr]
      have fr: "cwd w2 = cwd w" "\<forall>l. l \<noteq> cache_key self w x \<longrightarrow> files w2 l = files w l"
        "\<forall>q. (files w2 q = Some Dir) = (files w q = Some Dir)"
        using cache_key_cwd[of ?w1 w self x] by simp_all
      have keep: "\<forall>l. files w l \<noteq> None \<longrightarrow> files w2 l = files w l"
      proof (cases "reach self w x")
        case True
        with False have absent: "files w (cache_key self w x) = None"
          by (auto simp: lookup_def split: if_splits)
        show ?thesis
        proof (intro allI impI)
          fix l assume "files w l \<noteq> None"
          with absent have "l \<noteq> cache_key self w x" by auto
          with fr(2) show "files w2 l = files w l" by simp
        qed
      next
        case nr: False
        have "reach self ?w1 x = reach self w x" by (rule reach_dirs) simp_all
        with nr write_cache_unreached[of self ?w1 x E ?out] wr have "w2 = ?w1" by auto
        then show ?thesis by simp
      qed
      show ?thesis
      proof (cases r2)
        case (Inl err)
        with Cons.prems cf t wr have "w' = w2" by (simp add: Let_def)
        with fr keep show ?thesis by simp
      next
        case (Inr u)
        with Cons.prems cf t wr
        have "transform_loop E self w2 ts (acc @ ?out) = (r, w')" by (simp add: Let_def)
        from Cons.IH[OF this] fr keep show ?thesis by auto
      qed
    qed
  qed
qed

lemma miss_world_simps:
  "cwd (miss_world E self w x) = cwd w"
  "log (miss_world E self w x) = log w @ [ETransform x, EWrite x]"
  "files (miss_world E self w x) (cache_key self w x) =
     Some (File (fst (pickle_dump E (unit_transform E (wrapped self) [x]))))"
  "l \<noteq> cache_key self w x \<Longrightarrow> files (miss_world E self w x) l = files w l"
  by (simp_all add: miss_world_def)

lemma miss_world_dirs:
  "lookup (files w) (cache_key self w x) = None \<Longrightarrow>
     (files (miss_world E self w x) q = Some Dir) = (files w q = Some Dir)"
  by (auto simp: miss_world_def lookup_def split: if_splits)

lemma loop_Cons_cases [consumes 1, case_names hit miss]:
  assumes run: "transform_loop E self w (t # ts) acc = (Inr outs, w')"
  obtains (hit) cp cached where "checkpoint_path self = Some cp"
      "reach self w (item t)"
      "lookup (files w) (cache_key self w (item t)) \<noteq> None"
      "read_cache E self w (item t) = Inr cached"
      "transform_loop E self w ts (acc @ cached) = (Inr outs, w')"
  | (miss) cp where "checkpoint_path self = Some cp"
      "reach self w (item t)"
      "lookup (files w) (cache_key self w (item t)) = None"
      "cache_key self w (item t) \<noteq> []"
      "snd (pickle_dump E (unit_transform E (wrapped self) [item t])) = None"
      "transform_loop E self (miss_world E self w (item t)) ts
         (acc @ unit_transform E (wrapped self) [item t]) = (Inr outs, w')"
proof -
  obtain i x e where t: "t = (i, x, e)" by (cases t)
  then have x: "item t = x" by (simp add: item_def)
  from run obtain cp where cp: "checkpoint_path self = Some cp"
    using loop_no_path[of self "t # ts" E w acc] by (cases "checkpoint_path self") auto
  note c = contains_eq[OF cp, of w x]
  show thesis
  proof (cases "reach self w x \<and> lookup (files w) (cache_key self w x) \<noteq> None")
    case True
    with c have ct: "contains_cache_for self w x = Inr True" by simp
    with run t obtain cached where "read_cache E self w x = Inr cached"
      "transform_loop E self w ts (acc @ cached) = (Inr outs, w')"
      by (cases "read_cache E self w x") auto
    with hit[OF cp] True x show thesis by simp
  next
    case False
    with c have cf: "contains_cache_for self w x = Inr False" by auto
    let ?w1 = "w\<lparr>log := log w @ [ETransform x]\<rparr>"
    let ?out = "unit_transform E (wrapped self) [x]"
    obtain r2 w2 where wr: "write_cache E self ?w1 x ?out = (r2, w2)" by fastforce
    with run cf t obtain u where u: "r2 = Inr u"
      and rest: "transform_loop E self w2 ts (acc @ ?out) = (Inr outs, w')"
      by (cases r2) (auto simp: Let_def)
    have k: "cache_key self ?w1 x = cache_key self w x" by (rule cache_key_cwd) simp
    have rc: "reach self ?w1 x = reach self w x" by (rule reach_dirs) simp_all
    from write_cache_success[OF wr[unfolded u]] k rc
    have ok: "reach self w x" "cache_key self w x \<noteq> []" "snd (pickle_dump E ?out) = None"
      "w2 = miss_world E self w x"
      by (simp_all add: miss_world_def)
    with False have "lookup (files w) (cache_key self w x) = None" by simp
    with miss[OF cp] ok rest x show thesis by simp
  qed
qed

lemma read_contains_stable:
  assumes "cwd w' = cwd w" "\<forall>q. (files w' q = Some Dir) = (files w q = Some Dir)"
    "files w' (cache_key self w x) = files w (cache_key self w x)"
  shows "reach self w x \<Longrightarrow> read_cache E self w' x = read_cache E self w x"
    and "contains_cache_for self w' x = contains_cache_for self w x"
proof -
  have r: "reach self w' x = reach self w x" by (rule reach_dirs[OF assms(1,2)])
  have k: "cache_key self w' x = cache_key self w x" by (rule cache_key_cwd[OF assms(1)])
  have l: "lookup (files w') (cache_key self w x) = lookup (files w) (cache_key self w x)"
    using assms(3) by (simp add: lookup_def)
  show "reach self w x \<Longrightarrow> read_cache E self w' x = read_cache E self w x"
    using r k l by (simp add: read_eq)
  show "contains_cache_for self w' x = contains_cache_for self w x"
  proof (cases "checkpoint_path self")
    case None
    then show ?thesis by (simp add: contains_cache_for_def get_cache_path_for_def)
  next
    case (Some cp)
    show ?thesis unfolding contains_eq[OF Some] using r k l by simp
  qed
qed

lemma read_success:
  assumes "read_cache E self w x = Inr c"
  shows "\<exists>bs. files w (cache_key self w x) = Some (File bs) \<and> cache_key self w x \<noteq> []
     \<and> pickle_load E bs = Inr c \<and> reach self w x"
proof -
  from assms obtain p bs where p: "get_cache_path_for self x = Inr p"
    and o: "open_rb w p = Inr bs" and b: "pickle_load E bs = Inr c"
    by (auto simp: read_cache_def split: sum.splits)
  from o obtain l where l: "path_location (files w) (cwd w) p = Inr l"
    by (cases "path_location (files w) (cwd w) p") (auto simp: open_rb_def split: if_splits)
  with p have r: "reach self w x" by (simp add: reach_def)
  from assms b show ?thesis
    unfolding read_eq[OF r] using r
    by (auto simp: lookup_def split: option.splits node.splits if_splits)
qed

lemma file_read:
  assumes "reach self w x" "files w (cache_key self w x) = Some (File bs)"
    "cache_key self w x \<noteq> []"
  shows "read_cache E self w x = pickle_load E bs" and "contains_cache_for self w x = Inr True"
proof -
  show "read_cache E self w x = pickle_load E bs"
    using assms by (simp add: read_eq lookup_def)
  from reachD[OF assms(1)] obtain cp where "checkpoint_path self = Some cp"
    by (cases "checkpoint_path self") (auto simp: get_cache_path_for_def)
  from contains_eq[OF this, of w x] assms
  show "contains_cache_for self w x = Inr True" by (simp add: lookup_def)
qed

lemma loop_acc:
  "transform_loop E self w ts acc =
     (case transform_loop E self w ts [] of
        (Inl e, w1) \<Rightarrow> (Inl e, w1)
      | (Inr out, w1) \<Rightarrow> (Inr (acc @ out), w1))"
proof (induction ts arbitrary: w acc)
  case Nil
  then show ?case by simp
next
  case (Cons t ts)
  obtain i x e where t: "t = (i, x, e)" by (cases t)
  have step: "\<And>w0 a b. transform_loop E self w0 ts (a @ b) =
      (case transform_loop E self w0 ts b of
        (Inl e, w1) \<Rightarrow> (Inl e, w1) | (Inr out, w1) \<Rightarrow> (Inr (a @ out), w1))"
  proof -
    fix w0 :: "'a world" and a b :: "'a list"
    show "transform_loop E self w0 ts (a @ b) =
      (case transform_loop E self w0 ts b of
        (Inl e, w1) \<Rightarrow> (Inl e, w1) | (Inr out, w1) \<Rightarrow> (Inr (a @ out), w1))"
      using Cons.IH[of w0 "a @ b"] Cons.IH[of w0 b]
      by (auto split: prod.splits sum.splits)
  qed
  show ?case
    unfolding t
    using step[of _ acc]
    by (auto simp: Let_def split: sum.splits bool.splits prod.splits)
qed

lemma loop_append:
  "transform_loop E self w (ts @ us) acc =
     (case transform_loop E self w ts acc of
        (Inl e, w1) \<Rightarrow> (Inl e, w1)
      | (Inr out, w1) \<Rightarrow> transform_loop E self w1 us out)"
proof (induction ts arbitrary: w acc)
  case Nil
  then show ?case by simp
next
  case (Cons t ts)
  obtain i x e where t: "t = (i, x, e)" by (cases t)
  show ?case
    unfolding t using Cons.IH
    by (auto simp: Let_def split: sum.splits bool.splits prod.splits)
qed

section \<open>The loop\<close>

lemma loop_reach:
  assumes "transform_loop E self w ts acc = (Inr outs, w')"
  shows "\<forall>t\<in>set ts. reach self w (item t)"
  using assms
proof (induction ts arbitrary: w acc)
  case Nil
  then show ?case by simp
next
  case (Cons t ts)
  from Cons.prems show ?case
  proof (cases rule: loop_Cons_cases)
    case (hit cp cached)
    from Cons.IH[OF hit(5)] hit(2) show ?thesis by simp
  next
    case (miss cp)
    let ?w2 = "miss_world E self w (item t)"
    have "reach self ?w2 y = reach self w y" for y
      by (rule reach_dirs) (simp_all add: miss_world_simps miss_world_dirs[OF miss(3)])
    with Cons.IH[OF miss(6)] miss(2) show ?thesis by simp
  qed
qed

lemma loop_success_entries:
  assumes "transform_loop E self w ts acc = (Inr outs, w')"
    and "\<forall>t\<in>set ts. round_trips E (unit_transform E (wrapped self) [item t])"
  shows "(\<forall>t\<in>set ts. contains_cache_for self w' (item t) = Inr True
            \<and> (\<exists>out. read_cache E self w' (item t) = Inr out))
       \<and> outs = acc @ concat (map (\<lambda>t. cached_output E self w' (item t)) ts)"
  using assms
proof (induction ts arbitrary: w acc)
  case Nil
  then show ?case by simp
next
  case (Cons t ts)
  let ?x = "item t"
  from Cons.prems(2) have rt: "\<forall>t\<in>set ts. round_trips E (unit_transform E (wrapped self) [item t])"
    and rtx: "round_trips E (unit_transform E (wrapped self) [?x])" by simp_all
  from Cons.prems(1) show ?case
  proof (cases rule: loop_Cons_cases)
    case (hit cp cached)
    from read_success[OF hit(4)] obtain bs where
      bs: "files w (cache_key self w ?x) = Some (File bs)" "cache_key self w ?x \<noteq> []"
      "pickle_load E bs = Inr cached" by blast
    from loop_frame[OF hit(5)] bs(1)
    have fr: "cwd w' = cwd w" "\<forall>q. (files w' q = Some Dir) = (files w q = Some Dir)"
      "files w' (cache_key self w ?x) = files w (cache_key self w ?x)"
      by auto
    from read_contains_stable[OF fr] hit(2,4) contains_eq[OF hit(1), of w ?x] hit(3)
    have here: "read_cache E self w' ?x = Inr cached" "contains_cache_for self w' ?x = Inr True"
      by simp_all
    from Cons.IH[OF hit(5) rt] here show ?thesis by (simp add: cached_output_def)
  next
    case (miss cp)
    let ?w2 = "miss_world E self w ?x"
    let ?out = "unit_transform E (wrapped self) [?x]"
    have k: "cache_key self ?w2 ?x = cache_key self w ?x"
      by (rule cache_key_cwd) (simp add: miss_world_simps)
    have r2: "reach self ?w2 ?x"
      using reach_dirs[of ?w2 w self ?x] miss(2)
      by (simp add: miss_world_simps miss_world_dirs[OF miss(3)])
    from loop_frame[OF miss(6)]
    have fr: "cwd w' = cwd ?w2" "\<forall>q. (files w' q = Some Dir) = (files ?w2 q = Some Dir)"
      "files w' (cache_key self ?w2 ?x) = files ?w2 (cache_key self ?w2 ?x)"
      by (simp_all add: k miss_world_simps)
    have f2: "files ?w2 (cache_key self ?w2 ?x) = Some (File (fst (pickle_dump E ?out)))"
      by (simp add: k miss_world_simps)
    have k2: "cache_key self ?w2 ?x \<noteq> []" using miss(4) by (simp add: k)
    have "read_cache E self ?w2 ?x = Inr ?out" "contains_cache_for self ?w2 ?x = Inr True"
      using file_read(1)[OF r2 f2 k2, of E] file_read(2)[OF r2 f2 k2] rtx
      by (simp_all add: round_trips_def)
    with read_contains_stable[OF fr] r2
    have here: "read_cache E self w' ?x = Inr ?out" "contains_cache_for self w' ?x = Inr True"
      by simp_all
    from Cons.IH[OF miss(6) rt] here show ?thesis by (simp add: cached_output_def)
  qed
qed

lemma loop_all_hits:
  assumes "\<forall>t\<in>set ts. contains_cache_for self w (item t) = Inr True
            \<and> (\<exists>out. read_cache E self w (item t) = Inr out)"
  shows "transform_loop E self w ts acc =
     (Inr (acc @ concat (map (\<lambda>t. cached_output E self w (item t)) ts)), w)"
  using assms
proof (induction ts arbitrary: acc)
  case Nil
  then show ?case by simp
next
  case (Cons t ts)
  obtain i x e where t: "t = (i, x, e)" by (cases t)
  from Cons.prems obtain out where "contains_cache_for self w x = Inr True"
    "read_cache E self w x = Inr out"
    by (auto simp: t item_def)
  moreover from Cons.prems have "transform_loop E self w ts (acc @ out) =
     (Inr ((acc @ out) @ concat (map (\<lambda>t. cached_output E self w (item t)) ts)), w)"
    by (intro Cons.IH) simp
  ultimately show ?case by (simp add: t item_def cached_output_def)
qed

lemma present_after_miss:
  assumes "k \<noteq> []"
  shows "has_entry (fs(k \<mapsto> n)) = (has_entry fs)(k := True)"
  using assms by (auto simp: has_entry_def lookup_def fun_eq_iff)

lemma loop_log:
  assumes "transform_loop E self w ts acc = (Inr outs, w')"
  shows "log w' = log w @
     miss_events (misses (cache_key self w) (has_entry (files w)) (map item ts))"
  using assms
proof (induction ts arbitrary: w acc)
  case Nil
  then show ?case by simp
next
  case (Cons t ts)
  let ?x = "item t"
  from Cons.prems(1) show ?case
  proof (cases rule: loop_Cons_cases)
    case (hit cp cached)
    from Cons.IH[OF hit(5)] hit(3) show ?thesis by (simp add: has_entry_def)
  next
    case (miss cp)
    let ?w2 = "miss_world E self w ?x"
    have k: "cache_key self ?w2 = cache_key self w"
      by (rule ext, rule cache_key_cwd) (simp add: miss_world_simps)
    have p: "has_entry (files ?w2) = (has_entry (files w))(cache_key self w ?x := True)"
      using present_after_miss[OF miss(4)] by (simp add: miss_world_def)
    from miss(3) have "\<not> has_entry (files w) (cache_key self w ?x)" by (simp add: has_entry_def)
    then have m: "misses (cache_key self w) (has_entry (files w)) (map item (t # ts)) =
        ?x # misses (cache_key self w) ((has_entry (files w))(cache_key self w ?x := True))
               (map item ts)"
      by (simp del: fun_upd_apply)
    from Cons.IH[OF miss(6)]
    have "log w' = (log w @ [ETransform ?x, EWrite ?x]) @
        miss_events (misses (cache_key self w)
          ((has_entry (files w))(cache_key self w ?x := True)) (map item ts))"
      by (simp only: k p miss_world_simps)
    then show ?thesis unfolding m by simp
  qed
qed


lemma misses_absent: "x \<in> set (misses k p xs) \<Longrightarrow> \<not> p (k x)"
proof (induction xs arbitrary: p)
  case Nil
  then show ?case by simp
next
  case (Cons a xs)
  show ?case
  proof (cases "p (k a)")
    case True
    with Cons.prems have "x \<in> set (misses k p xs)" by simp
    then show ?thesis by (rule Cons.IH)
  next
    case False
    with Cons.prems have "x = a \<or> x \<in> set (misses k (p(k a := True)) xs)" by simp
    then show ?thesis
    proof
      assume "x = a" with False show ?thesis by simp
    next
      assume "x \<in> set (misses k (p(k a := True)) xs)"
      from Cons.IH[OF this] show ?thesis by (simp split: if_splits)
    qed
  qed
qed

lemma transform_calls_append: "transform_calls (es @ fs) = transform_calls es @ transform_calls fs"
  by (induction es rule: transform_calls.induct) simp_all

lemma transform_calls_miss_events: "transform_calls (miss_events xs) = xs"
  by (induction xs) simp_all

lemma served_after_hit:
  assumes cp: "checkpoint_path self = Some cp"
    and hit: "reach self w x" "lookup (files w) (cache_key self w x) \<noteq> None"
    and y: "reach self w y"
  shows "served E self w (x # xs) y = served E self w xs y"
proof (cases "contains_cache_for self w y = Inr True")
  case True
  then show ?thesis by (simp add: served_def)
next
  case False
  with hit y have "cache_key self w x \<noteq> cache_key self w y"
    unfolding contains_eq[OF cp] by auto
  with False show ?thesis by (simp add: served_def)
qed

lemma served_after_miss:
  assumes cp: "checkpoint_path self = Some cp"
    and miss: "reach self w x" "lookup (files w) (cache_key self w x) = None"
    and key: "cache_key self w x \<noteq> []"
    and rt: "round_trips E (unit_transform E (wrapped self) [x])"
    and y: "reach self w y"
  shows "served E self w (x # xs) y = served E self (miss_world E self w x) xs y"
proof -
  let ?w2 = "miss_world E self w x"
  have k: "\<And>z. cache_key self ?w2 z = cache_key self w z"
    by (rule cache_key_cwd) (simp add: miss_world_simps)
  have c: "cwd ?w2 = cwd w" by (simp add: miss_world_simps)
  have d: "\<forall>q. (files ?w2 q = Some Dir) = (files w q = Some Dir)"
    using miss_world_dirs[OF miss(2)] by blast
  have y2: "reach self ?w2 y" using reach_dirs[OF c d, of self y] y by simp
  show ?thesis
  proof (cases "cache_key self w y = cache_key self w x")
    case True
    then have "contains_cache_for self w y = Inr False"
      using miss by (simp add: contains_eq[OF cp])
    then have l: "served E self w (x # xs) y = Some (unit_transform E (wrapped self) [x])"
      using True by (simp add: served_def)
    have f: "files ?w2 (cache_key self ?w2 y) =
        Some (File (fst (pickle_dump E (unit_transform E (wrapped self) [x]))))"
      by (simp add: k True miss_world_simps)
    have ky: "cache_key self ?w2 y \<noteq> []" using key by (simp add: k True)
    from file_read(1)[OF y2 f ky, of E] file_read(2)[OF y2 f ky] rt
    have "read_cache E self ?w2 y = Inr (unit_transform E (wrapped self) [x])"
      "contains_cache_for self ?w2 y = Inr True"
      by (simp_all add: round_trips_def)
    then have "served E self ?w2 xs y = Some (unit_transform E (wrapped self) [x])"
      by (simp add: served_def)
    with l show ?thesis by simp
  next
    case False
    then have f: "files ?w2 (cache_key self w y) = files w (cache_key self w y)"
      by (simp add: miss_world_simps)
    note read_contains_stable(1)[OF c d f y, of E] read_contains_stable(2)[OF c d f]
    moreover from False have "cache_key self w x \<noteq> cache_key self w y" by auto
    ultimately show ?thesis by (simp add: served_def k)
  qed
qed

lemma loop_served:
  assumes "transform_loop E self w ts acc = (Inr outs, w')"
    and "\<forall>t\<in>set ts. round_trips E (unit_transform E (wrapped self) [item t])"
  shows "\<exists>blocks. map (served E self w (map item ts)) (map item ts) = map Some blocks
           \<and> outs = acc @ concat blocks"
  using assms
proof (induction ts arbitrary: w acc)
  case Nil
  then show ?case by simp
next
  case (Cons t ts)
  let ?x = "item t"
  let ?xs = "map item ts"
  from Cons.prems(2) have rt: "\<forall>t\<in>set ts. round_trips E (unit_transform E (wrapped self) [item t])"
    and rtx: "round_trips E (unit_transform E (wrapped self) [?x])" by simp_all
  from loop_reach[OF Cons.prems(1)] have ry: "\<forall>y\<in>set ?xs. reach self w y" by simp
  from Cons.prems(1) show ?case
  proof (cases rule: loop_Cons_cases)
    case (hit cp cached)
    from Cons.IH[OF hit(5) rt] obtain blocks where
      b: "map (served E self w ?xs) ?xs = map Some blocks" "outs = (acc @ cached) @ concat blocks"
      by blast
    have "served E self w (?x # ?xs) ?x = Some cached"
      using hit(2,3,4) by (simp add: served_def contains_eq[OF hit(1)])
    moreover have "map (served E self w (?x # ?xs)) ?xs = map (served E self w ?xs) ?xs"
      using served_after_hit[OF hit(1,2,3)] ry by (intro map_cong) auto
    ultimately have "map (served E self w (map item (t # ts))) (map item (t # ts)) =
        map Some (cached # blocks)"
      by (simp only: list.map b(1))
    moreover have "outs = acc @ concat (cached # blocks)" using b(2) by simp
    ultimately show ?thesis by blast
  next
    case (miss cp)
    let ?w2 = "miss_world E self w ?x"
    let ?out = "unit_transform E (wrapped self) [?x]"
    from Cons.IH[OF miss(6) rt] obtain blocks where
      b: "map (served E self ?w2 ?xs) ?xs = map Some blocks" "outs = (acc @ ?out) @ concat blocks"
      by blast
    have "contains_cache_for self w ?x = Inr False"
      using miss(3) by (simp add: contains_eq[OF miss(1)])
    then have "served E self w (?x # ?xs) ?x = Some ?out"
      by (simp add: served_def)
    moreover have "map (served E self w (?x # ?xs)) ?xs = map (served E self ?w2 ?xs) ?xs"
      using served_after_miss[OF miss(1,2,3,4) rtx] ry by (intro map_cong) auto
    ultimately have "map (served E self w (map item (t # ts))) (map item (t # ts)) =
        map Some (?out # blocks)"
      by (simp only: list.map b(1))
    moreover have "outs = acc @ concat (?out # blocks)" using b(2) by simp
    ultimately show ?thesis by blast
  qed
qed


section \<open>Flushing\<close>

lemma resolve_errors:
  "resolve fs l cs = Inl e \<Longrightarrow> e = FileNotFoundError \<or> e = NotADirectoryError"
proof (induction cs arbitrary: l)
  case Nil
  then show ?case by simp
next
  case (Cons c cs)
  show ?case
  proof (cases "c = []")
    case True
    with Cons show ?thesis by simp
  next
    case False
    show ?thesis
    proof (cases "lookup fs l")
      case None
      with Cons.prems False show ?thesis by simp
    next
      case (Some n)
      with Cons False show ?thesis by (cases n) auto
    qed
  qed
qed

lemma simple_walk:
  "list_all (\<lambda>c. c \<noteq> ''..'') cs \<Longrightarrow>
     foldl walk l cs = l @ filter (\<lambda>c. c \<noteq> [] \<and> c \<noteq> ''.'') cs"
  by (induction cs arbitrary: l) (auto simp: walk_def)

lemma last_name_kept:
  assumes "filter (\<lambda>c. c \<noteq> []) cs \<noteq> []" "last (filter (\<lambda>c. c \<noteq> []) cs) \<noteq> ''.''"
  shows "filter (\<lambda>c. c \<noteq> [] \<and> c \<noteq> ''.'') cs \<noteq> []"
proof -
  from assms(1) have "last (filter (\<lambda>c. c \<noteq> []) cs) \<in> set (filter (\<lambda>c. c \<noteq> []) cs)"
    by (rule last_in_set)
  with assms(2) have "last (filter (\<lambda>c. c \<noteq> []) cs) \<in> set (filter (\<lambda>c. c \<noteq> [] \<and> c \<noteq> ''.'') cs)"
    by simp
  then show ?thesis by (metis empty_iff empty_set)
qed

lemma resolve_longer:
  assumes "list_all (\<lambda>c. c \<noteq> ''..'') cs"
    and "filter (\<lambda>c. c \<noteq> []) cs \<noteq> []" "last (filter (\<lambda>c. c \<noteq> []) cs) \<noteq> ''.''"
    and "resolve fs l cs = Inr r"
  shows "length l < length r"
proof -
  from resolve_walk[OF assms(4)] simple_walk[OF assms(1), of l]
  have "r = l @ filter (\<lambda>c. c \<noteq> [] \<and> c \<noteq> ''.'') cs" by simp
  with last_name_kept[OF assms(2,3)] show ?thesis by simp
qed

lemma resolve_shorter:
  assumes "list_all (\<lambda>c. c \<noteq> ''..'') cs"
    and "filter (\<lambda>c. c \<noteq> []) cs \<noteq> []" "last (filter (\<lambda>c. c \<noteq> []) cs) \<noteq> ''.''"
    and "resolve fs l cs = Inr r"
    and "\<forall>q. length q < length r \<longrightarrow> lookup fs' q = lookup fs q"
  shows "resolve fs' l cs = Inr r"
  using assms
proof (induction cs arbitrary: l)
  case Nil
  then show ?case by simp
next
  case (Cons c cs)
  show ?case
  proof (cases "c = []")
    case True
    with Cons show ?thesis by simp
  next
    case False
    from Cons.prems(1) have s: "list_all (\<lambda>c. c \<noteq> ''..'') cs" by simp
    from Cons.prems(4) False have d: "lookup fs l = Some Dir"
      and rest: "resolve fs (walk l c) cs = Inr r"
      by (auto split: option.splits node.splits)
    from resolve_longer[OF Cons.prems(1,2,3,4)] Cons.prems(5) d
    have d': "lookup fs' l = Some Dir" by simp
    show ?thesis
    proof (cases "filter (\<lambda>c. c \<noteq> []) cs = []")
      case True
      then have "\<forall>x\<in>set cs. x = []" by (simp add: filter_empty_conv)
      then have "resolve fs' l' cs = Inr l'" and "resolve fs l' cs = Inr l'" for l'
        by (induction cs arbitrary: l') simp_all
      with rest False d' show ?thesis by simp
    next
      case ne: False
      with Cons.prems(3) False have "last (filter (\<lambda>c. c \<noteq> []) cs) \<noteq> ''.''" by simp
      from Cons.IH[OF s ne this rest Cons.prems(5)] False d' show ?thesis by simp
    qed
  qed
qed

lemma resolve_parent:
  assumes "list_all (\<lambda>c. c \<noteq> ''..'') cs"
    and "filter (\<lambda>c. c \<noteq> []) cs \<noteq> []" "last (filter (\<lambda>c. c \<noteq> []) cs) \<noteq> ''.''"
    and "resolve fs l cs = Inr r"
  shows "r \<noteq> [] \<and> lookup fs (butlast r) = Some Dir"
  using assms
proof (induction cs arbitrary: l)
  case Nil
  then show ?case by simp
next
  case (Cons c cs)
  show ?case
  proof (cases "c = []")
    case True
    with Cons show ?thesis by simp
  next
    case False
    from Cons.prems(1) have s: "list_all (\<lambda>c. c \<noteq> ''..'') cs" and c: "c \<noteq> ''..''" by simp_all
    from Cons.prems(4) False have d: "lookup fs l = Some Dir"
      and rest: "resolve fs (walk l c) cs = Inr r"
      by (auto split: option.splits node.splits)
    show ?thesis
    proof (cases "filter (\<lambda>c. c \<noteq> []) cs = []")
      case True
      with Cons.prems(3) False have "c \<noteq> ''.''" by simp
      with False c have w: "walk l c = l @ [c]" by (simp add: walk_def)
      from True have "filter (\<lambda>c. c \<noteq> [] \<and> c \<noteq> ''.'') cs = []"
        by (simp add: filter_empty_conv)
      with resolve_walk[OF rest] simple_walk[OF s, of "walk l c"] w
      have "r = l @ [c]" by simp
      with d show ?thesis by simp
    next
      case ne: False
      with Cons.prems(3) False have "last (filter (\<lambda>c. c \<noteq> []) cs) \<noteq> ''.''" by simp
      from Cons.IH[OF s ne this rest] show ?thesis .
    qed
  qed
qed

lemma simple_path_pieces:
  assumes "simple_path p"
  shows "list_all (\<lambda>c. c \<noteq> ''..'') (split_sep p)"
    and "filter (\<lambda>c. c \<noteq> []) (split_sep p) \<noteq> []"
    and "last (filter (\<lambda>c. c \<noteq> []) (split_sep p)) \<noteq> ''.''"
  using assms
  by (auto simp: simple_path_def last_piece_def proper_name_def split: list.splits)

lemma simple_path_facts:
  assumes "simple_path p" "path_location fs wd p = Inr l"
  shows "p \<noteq> []" "l \<noteq> []" "lookup fs (butlast l) = Some Dir" "proper_name (last_piece p)"
proof -
  note s = simple_path_pieces[OF assms(1)]
  from s(2) show "p \<noteq> []" by auto
  from resolve_parent[OF s assms(2)[unfolded path_location_def]]
  show "l \<noteq> []" "lookup fs (butlast l) = Some Dir" by simp_all
  from assms(1) show "proper_name (last_piece p)" by (simp add: simple_path_def)
qed

lemma simple_path_again:
  assumes "simple_path p" "path_location fs wd p = Inr l"
    and "\<forall>q. length q < length l \<longrightarrow> lookup fs' q = lookup fs q"
  shows "path_location fs' wd p = Inr l"
  using resolve_shorter[OF simple_path_pieces[OF assms(1)] assms(2)[unfolded path_location_def] assms(3)]
  by (simp add: path_location_def)








section \<open>Items that share a cache file\<close>

lemma same_hash_same_path:
  "value_hasher self a = value_hasher self b \<Longrightarrow>
     get_cache_path_for self a = get_cache_path_for self b"
  by (simp add: get_cache_path_for_def hash_value_def)

lemma same_path_same_answers:
  assumes "get_cache_path_for self a = get_cache_path_for self b"
  shows "contains_cache_for self w a = contains_cache_for self w b"
    and "read_cache E self w a = read_cache E self w b"
    and "cache_key self w a = cache_key self w b"
  using assms by (simp_all add: contains_cache_for_def read_cache_def cache_key_def)

lemma contains_True_path: "contains_cache_for self w x = Inr True \<Longrightarrow> \<exists>cp. checkpoint_path self = Some cp"
  by (cases "checkpoint_path self") (auto simp: contains_cache_for_def get_cache_path_for_def)


lemma new_calls:
  assumes "transform_loop E self w ts acc = (Inr outs, w')"
  shows "transform_calls (drop (length (log w)) (log w')) =
     misses (cache_key self w) (has_entry (files w)) (map item ts)"
  using loop_log[OF assms] by (simp add: transform_calls_miss_events)

lemma concat_singletons:
  "\<forall>b\<in>set bs. length b = 1 \<Longrightarrow> length (concat bs) = length bs \<and> (\<forall>i<length bs. bs ! i = [concat bs ! i])"
proof (induction bs)
  case Nil
  then show ?case by simp
next
  case (Cons b bs)
  then obtain v where b: "b = [v]" by (cases b) auto
  from Cons have IH: "length (concat bs) = length bs" "\<forall>i<length bs. bs ! i = [concat bs ! i]"
    by simp_all
  show ?case
  proof (intro conjI allI impI)
    show "length (concat (b # bs)) = length (b # bs)" using IH(1) b by simp
    fix i assume "i < length (b # bs)"
    then show "(b # bs) ! i = [concat (b # bs) ! i]"
      using IH(2) b by (cases i) simp_all
  qed
qed

lemma same_path_reach:
  "get_cache_path_for self a = get_cache_path_for self b \<Longrightarrow> reach self w a = reach self w b"
  by (simp add: reach_def)

lemma entry_file:
  assumes "get_cache_path_for self x = Inr p" "open_rb w p = Inr bs"
  shows "files w (cache_key self w x) = Some (File bs) \<and> cache_key self w x \<noteq> []
      \<and> reach self w x"
proof -
  from assms(2) obtain l where l: "path_location (files w) (cwd w) p = Inr l"
    by (cases "path_location (files w) (cwd w) p") (auto simp: open_rb_def split: if_splits)
  with assms(1) have r: "reach self w x" by (simp add: reach_def)
  from path_location_location[OF l] assms(1) have k: "l = cache_key self w x"
    by (simp add: cache_key_def)
  from assms(2) l have "lookup (files w) l = Some (File bs)"
    by (auto simp: open_rb_def split: if_splits option.splits node.splits)
  with k r show ?thesis by (auto simp: lookup_def split: if_splits)
qed

lemma file_open:
  assumes "get_cache_path_for self x = Inr p" "files w (cache_key self w x) = Some (File bs)"
    "cache_key self w x \<noteq> []" "reach self w x"
  shows "open_rb w p = Inr bs"
proof -
  from reachD[OF assms(4)] assms(1)
  have "p \<noteq> []" "\<not> endswith_sep p" "path_location (files w) (cwd w) p = Inr (cache_key self w x)"
    by auto
  with assms(2,3) show ?thesis by (simp add: open_rb_def lookup_def)
qed

section \<open>A batch with an entry that cannot be read\<close>

lemma loop_corrupt:
  assumes cp: "checkpoint_path self = Some cp"
    and bad: "pickle_load E bs = Inl err"
    and k: "k \<noteq> []"
  shows "files w k = Some (File bs) \<Longrightarrow> cache_key self w x = k \<Longrightarrow> reach self w x \<Longrightarrow>
     x \<in> item ` set ts \<Longrightarrow>
     \<exists>e' w' evs. transform_loop E self w ts acc = (Inl e', w') \<and> cwd w' = cwd w
        \<and> (\<forall>q. (files w' q = Some Dir) = (files w q = Some Dir))
        \<and> files w' k = Some (File bs) \<and> log w' = log w @ evs \<and> x \<notin> set (transform_calls evs)"
proof (induction ts arbitrary: w acc)
  case Nil
  then show ?case by simp
next
  case (Cons t ts)
  obtain i y e where t: "t = (i, y, e)" by (cases t)
  have fx: "files w (cache_key self w x) = Some (File bs)" "cache_key self w x \<noteq> []"
    using Cons.prems(1,2) k by simp_all
  from file_read(1)[OF Cons.prems(3) fx, of E] file_read(2)[OF Cons.prems(3) fx] bad
  have rx: "read_cache E self w x = Inl err" and cx: "contains_cache_for self w x = Inr True"
    by simp_all
  from contains_eq[OF cp, of w y] obtain b where cy: "contains_cache_for self w y = Inr b"
    by blast
  show ?case
  proof (cases b)
    case True
    show ?thesis
    proof (cases "read_cache E self w y")
      case (Inl e1)
      with cy True t have "transform_loop E self w (t # ts) acc = (Inl e1, w)" by simp
      with Cons.prems(1) show ?thesis by simp
    next
      case (Inr cached)
      with rx have "y \<noteq> x" by auto
      with Cons.prems(4) t have xin: "x \<in> item ` set ts" by (auto simp: item_def)
      from Inr cy True t have "transform_loop E self w (t # ts) acc =
          transform_loop E self w ts (acc @ cached)" by simp
      with Cons.IH[OF Cons.prems(1,2,3) xin, of "acc @ cached"] show ?thesis by simp
    qed
  next
    case False
    with cy cx have yx: "y \<noteq> x" by auto
    with Cons.prems(4) t have xin: "x \<in> item ` set ts" by (auto simp: item_def)
    let ?w1 = "w\<lparr>log := log w @ [ETransform y]\<rparr>"
    let ?out = "unit_transform E (wrapped self) [y]"
    obtain r2 w2 where wr: "write_cache E self ?w1 y ?out = (r2, w2)" by fastforce
    have ky: "cache_key self ?w1 y = cache_key self w y" by (rule cache_key_cwd) simp
    from write_cache_frame[OF wr] ky
    have fr: "cwd w2 = cwd w" "\<forall>l. l \<noteq> cache_key self w y \<longrightarrow> files w2 l = files w l"
      "\<forall>q. (files w2 q = Some Dir) = (files w q = Some Dir)"
      by simp_all
    have fk: "files w2 k = Some (File bs)"
    proof (cases "cache_key self w y = k")
      case same: True
      with Cons.prems(1) k have "lookup (files w) (cache_key self w y) \<noteq> None"
        by (simp add: lookup_def)
      with cy False contains_eq[OF cp, of w y] have "\<not> reach self w y" by simp
      moreover have "reach self ?w1 y = reach self w y" by (rule reach_dirs) simp_all
      ultimately have "w2 = ?w1" using write_cache_unreached[of self ?w1 y E ?out] wr by auto
      with Cons.prems(1) show ?thesis by simp
    next
      case other: False
      with fr(2) Cons.prems(1) show ?thesis by auto
    qed
    from write_cache_log[OF wr]
    have lg: "log w2 = log w @ [ETransform y] \<or> log w2 = log w @ [ETransform y, EWrite y]"
      by auto
    have kx: "cache_key self w2 x = k"
      using cache_key_cwd[OF fr(1), of self x] Cons.prems(2) by simp
    have rx2: "reach self w2 x" using reach_dirs[OF fr(1,3), of self x] Cons.prems(3) by simp
    show ?thesis
    proof (cases r2)
      case (Inl e1)
      with cy False t wr have "transform_loop E self w (t # ts) acc = (Inl e1, w2)"
        by (simp add: Let_def)
      with fr fk lg yx show ?thesis by auto
    next
      case (Inr u)
      with cy False t wr have step: "transform_loop E self w (t # ts) acc =
          transform_loop E self w2 ts (acc @ ?out)"
        by (simp add: Let_def)
      from Cons.IH[OF fk kx rx2 xin, of "acc @ ?out"] obtain e' w' evs where
        "transform_loop E self w2 ts (acc @ ?out) = (Inl e', w')" "cwd w' = cwd w2"
        "\<forall>q. (files w' q = Some Dir) = (files w2 q = Some Dir)"
        "files w' k = Some (File bs)" "log w' = log w2 @ evs" "x \<notin> set (transform_calls evs)"
        by blast
      with step fr lg yx show ?thesis
        by (auto simp: transform_calls_append)
    qed
  qed
qed

section \<open>Flushes that fail and flushes that go through\<close>

lemma shutil_rmtree_fails:
  "shutil_rmtree w [] = (Inl FileNotFoundError, w)"
  "p \<noteq> [] \<Longrightarrow> path_location (files w) (cwd w) p = Inl e \<Longrightarrow> shutil_rmtree w p = (Inl e, w)"
  "p \<noteq> [] \<Longrightarrow> path_location (files w) (cwd w) p = Inr l \<Longrightarrow> lookup (files w) l = None \<Longrightarrow>
     shutil_rmtree w p = (Inl FileNotFoundError, w)"
  "p \<noteq> [] \<Longrightarrow> path_location (files w) (cwd w) p = Inr l \<Longrightarrow> lookup (files w) l = Some (File bs) \<Longrightarrow>
     shutil_rmtree w p = (Inl NotADirectoryError, w)"
  by (simp_all add: shutil_rmtree_def)

lemma flush_cache_rmtree_fails:
  "checkpoint_path self = Some cp \<Longrightarrow> shutil_rmtree w cp = (Inl e, w1) \<Longrightarrow>
     flush_cache self w = (Inl e, w1)"
  by (simp add: flush_cache_def)




lemma flush_simple_path:
  assumes cp: "checkpoint_path self = Some cp"
    and s: "simple_path cp"
    and l: "path_location (files w) (cwd w) cp = Inr l"
    and d: "files w l = Some Dir"
  shows "flush_cache self w =
     (Inr (), w\<lparr>files := (\<lambda>q. if take (length l) q = l then None else files w q)(l \<mapsto> Dir),
               log := log w @ [EFlush]\<rparr>)"
proof -
  note f = simple_path_facts[OF s l]
  let ?fs1 = "\<lambda>q. if take (length l) q = l \<and> q \<noteq> l then None else files w q"
  let ?fs2 = "\<lambda>q. if take (length l) q = l then None else files w q"
  have short: "take (length l) q \<noteq> l" if "length q < length l" for q
  proof
    assume "take (length l) q = l"
    then have "length (take (length l) q) = length l" by simp
    with that show False by simp
  qed
  have l1: "path_location ?fs1 (cwd w) cp = Inr l"
    by (rule simple_path_again[OF s l]) (simp add: lookup_def short)
  have l2: "path_location ?fs2 (cwd w) cp = Inr l"
    by (rule simple_path_again[OF s l]) (simp add: lookup_def short)
  have e: "?fs1(l := None) = ?fs2" by (auto simp: fun_eq_iff)
  from f(1,2,4) l d l1 have rm: "shutil_rmtree w cp = (Inr (), w\<lparr>files := ?fs2\<rparr>)"
    unfolding e[symmetric] by (simp add: shutil_rmtree_def lookup_def)
  from f(2) have "length (butlast l) < length l" by simp
  from short[OF this] f(3) have "lookup ?fs2 (butlast l) = Some Dir"
    by (auto simp: lookup_def split: if_splits)
  with f(2) have "mkdir_at ?fs2 l = Inr (?fs2(l \<mapsto> Dir))"
    by (simp add: mkdir_at_def lookup_def)
  with f(1) l2 have mk: "os_mkdir (w\<lparr>files := ?fs2\<rparr>) cp =
      (Inr (), w\<lparr>files := ?fs2(l \<mapsto> Dir)\<rparr>)"
    by (simp add: os_mkdir_def)
  from cp rm mk show ?thesis by (simp add: flush_cache_def)
qed


section \<open>What a write leaves\<close>

lemma written_entry:
  assumes "reach self w x" "cache_key self w x \<noteq> []"
    "lookup (files w) (cache_key self w x) \<noteq> Some Dir"
  shows "read_cache E self (w\<lparr>files := (files w)(cache_key self w x \<mapsto> File b), log := lg\<rparr>) x
           = pickle_load E b"
    and "contains_cache_for self (w\<lparr>files := (files w)(cache_key self w x \<mapsto> File b), log := lg\<rparr>) x
           = Inr True"
proof -
  let ?w' = "w\<lparr>files := (files w)(cache_key self w x \<mapsto> File b), log := lg\<rparr>"
  have k: "cache_key self ?w' x = cache_key self w x" by (rule cache_key_cwd) simp
  have d: "\<forall>q. (files ?w' q = Some Dir) = (files w q = Some Dir)"
    using assms(2,3) by (auto simp: lookup_def)
  have r: "reach self ?w' x" using reach_dirs[OF _ d, of self x] assms(1) by simp
  have f: "files ?w' (cache_key self ?w' x) = Some (File b)" by (simp add: k)
  have n: "cache_key self ?w' x \<noteq> []" using assms(2) by (simp add: k)
  show "read_cache E self ?w' x = pickle_load E b" by (rule file_read(1)[OF r f n])
  show "contains_cache_for self ?w' x = Inr True" by (rule file_read(2)[OF r f n])
qed

section \<open>Evaluation on the small instance\<close>

lemmas toy_defs = toy_env_def toy_new_def toy_self_def toy_bare_def toy_world_def toy_batch_def
  toy_dump_def toy_load_def init_def shout_def
lemmas os_defs = os_path_join_def startswith_sep_def endswith_sep_def os_path_exists_def
  path_location_def location_def walk_def lookup_def mkdir_at_def os_mkdir_def shutil_rmtree_def
  open_rb_def open_wb_def file_write_def last_piece_def proper_name_def
  os_path_split_def rstrip_sep_def makedirs_split_def
lemmas op_defs = setup_step_def create_checkpoint_path_def get_cache_path_for_def hash_value_def
  flush_cache_def read_cache_def write_cache_def contains_cache_for_def transform_with_cache_def
  handle_transform_def handle_fit_transform_def dc_iter_def set_data_inputs_def
  set_current_ids_def batch_items_def item_def round_trips_def Let_def

section \<open>The claims\<close>

subsection \<open>C1: a fit flushes the cache before anything else\<close>




subsection \<open>C2: write, then read\<close>

text \<open>
Claim C2. After \<open>write_cache\<close> has succeeded for an item \<open>x\<close> and an output \<open>y\<close> that the
  serializer gives back unchanged, \<open>contains_cache_for\<close> answers \<open>True\<close> for \<open>x\<close> and
  \<open>read_cache\<close> returns \<open>y\<close>.
\<close>

theorem write_read_round_trip:
  assumes "write_cache E self w x y = (Inr (), w')"
    and "pickle_load E (fst (pickle_dump E y)) = Inr y"
  shows "contains_cache_for self w' x = Inr True \<and> read_cache E self w' x = Inr y"
proof -
  from write_cache_success[OF assms(1)] have ok: "reach self w x" "cache_key self w x \<noteq> []"
    "lookup (files w) (cache_key self w x) \<noteq> Some Dir"
    and w': "w' = w\<lparr>files := (files w)(cache_key self w x \<mapsto> File (fst (pickle_dump E y))),
                log := log w @ [EWrite x]\<rparr>"
    by simp_all
  from written_entry(1)[OF ok, where E = E and b = "fst (pickle_dump E y)"
      and lg = "log w @ [EWrite x]"]
    written_entry(2)[OF ok, where b = "fst (pickle_dump E y)" and lg = "log w @ [EWrite x]"]
    assms(2)
  show ?thesis unfolding w' by simp
qed

text \<open>An instance: an output written for an item is found and read back.\<close>

theorem write_read_round_trip_witness:
  "fst (write_cache toy_env toy_self toy_world CHR ''a'' ''A'') = Inr ()
   \<and> round_trips toy_env ''A''
   \<and> contains_cache_for toy_self (snd (write_cache toy_env toy_self toy_world CHR ''a'' ''A''))
        CHR ''a'' = Inr True
   \<and> read_cache toy_env toy_self (snd (write_cache toy_env toy_self toy_world CHR ''a'' ''A''))
        CHR ''a'' = Inr ''A''"
proof -
  have w: "fst (write_cache toy_env toy_self toy_world CHR ''a'' ''A'') = Inr ()"
    by (simp add: toy_defs os_defs op_defs)
  then have run: "write_cache toy_env toy_self toy_world CHR ''a'' ''A'' =
      (Inr (), snd (write_cache toy_env toy_self toy_world CHR ''a'' ''A''))"
    by (metis prod.collapse)
  have rt: "pickle_load toy_env (fst (pickle_dump toy_env ''A'')) = Inr ''A''"
    by (simp add: toy_defs)
  from write_read_round_trip[OF run rt] w rt show ?thesis by (simp add: round_trips_def)
qed

subsection \<open>C3: a second transform is all hits\<close>

text \<open>
Claim C3. When \<open>handle_transform\<close> has succeeded on a batch, a second call on the same
  batch in the world the first call left, with no flush in between, returns the same
  container (the same outputs and identifiers) and leaves the world as it found it: no
  file is written and the log gains no call of the wrapped unit's \<open>transform\<close>.
\<close>

theorem second_transform_all_hits:
  assumes "handle_transform E self w dc = (Inr dc', w')"
    and "\<forall>x\<in>set (batch_items dc). round_trips E (unit_transform E (wrapped self) [x])"
  shows "handle_transform E self w' dc = (Inr dc', w')
       \<and> transform_calls (log (snd (handle_transform E self w' dc))) = transform_calls (log w')"
proof -
  from assms(1) obtain outs where
    run: "transform_loop E self w (dc_iter dc) [] = (Inr outs, w')"
    and dc': "dc' = set_current_ids (set_data_inputs dc outs)
        (step_hash E (current_ids (set_data_inputs dc outs)) (hyperparams self) outs)"
    by (auto simp: handle_transform_def transform_with_cache_def Let_def
        split: prod.splits sum.splits)
  from assms(2) have rt:
    "\<forall>t\<in>set (dc_iter dc). round_trips E (unit_transform E (wrapped self) [item t])"
    by (simp add: batch_items_def)
  from loop_success_entries[OF run rt]
  have hits: "\<forall>t\<in>set (dc_iter dc). contains_cache_for self w' (item t) = Inr True
            \<and> (\<exists>out. read_cache E self w' (item t) = Inr out)"
    and outs: "outs = concat (map (\<lambda>t. cached_output E self w' (item t)) (dc_iter dc))"
    by simp_all
  from loop_all_hits[OF hits, of "[]"] outs
  have "transform_loop E self w' (dc_iter dc) [] = (Inr outs, w')" by simp
  then have "handle_transform E self w' dc = (Inr dc', w')"
    by (simp add: handle_transform_def transform_with_cache_def Let_def dc')
  then show ?thesis by simp
qed

text \<open>An instance: the first call invokes the unit twice for three items, the second not at all.\<close>

theorem second_transform_all_hits_witness:
  "fst (handle_transform toy_env toy_self toy_world (toy_batch ''aba'')) =
     Inr ((toy_batch ''aba'')\<lparr>data_inputs := ''ABA''\<rparr>)
   \<and> transform_calls (log (snd (handle_transform toy_env toy_self toy_world (toy_batch ''aba''))))
       = ''ab''
   \<and> handle_transform toy_env toy_self
        (snd (handle_transform toy_env toy_self toy_world (toy_batch ''aba''))) (toy_batch ''aba'')
       = (Inr ((toy_batch ''aba'')\<lparr>data_inputs := ''ABA''\<rparr>),
          snd (handle_transform toy_env toy_self toy_world (toy_batch ''aba'')))"
proof -
  let ?w' = "snd (handle_transform toy_env toy_self toy_world (toy_batch ''aba''))"
  have r: "fst (handle_transform toy_env toy_self toy_world (toy_batch ''aba'')) =
     Inr ((toy_batch ''aba'')\<lparr>data_inputs := ''ABA''\<rparr>)"
    by (simp add: toy_defs os_defs op_defs)
  then have run: "handle_transform toy_env toy_self toy_world (toy_batch ''aba'') =
      (Inr ((toy_batch ''aba'')\<lparr>data_inputs := ''ABA''\<rparr>), ?w')"
    by (metis prod.collapse)
  have calls: "transform_calls (log ?w') = ''ab''"
    by (simp add: toy_defs os_defs op_defs)
  have rt: "\<forall>x\<in>set (batch_items (toy_batch ''aba'')).
      round_trips toy_env (unit_transform toy_env (wrapped toy_self) [x])"
    by (simp add: toy_defs op_defs)
  from second_transform_all_hits[OF run rt] r calls show ?thesis by simp
qed

subsection \<open>C4: outputs come in input order\<close>

text \<open>
Claim C4. The outputs of \<open>_transform_with_cache\<close> are the concatenation, in input order,
  of one block per item of the batch, where the block of the \<open>i\<close>-th item is what the cache
  owes that item (\<open>served\<close>): its entry when it had one, the freshly computed output
  otherwise. When every block holds one output, the \<open>i\<close>-th output is the one of the
  \<open>i\<close>-th item.
\<close>

theorem outputs_follow_input_order:
  assumes "transform_with_cache E self w dc = (Inr outs, w')"
    and "\<forall>x\<in>set (batch_items dc). round_trips E (unit_transform E (wrapped self) [x])"
  shows "\<exists>blocks. outs = concat blocks
           \<and> length blocks = length (batch_items dc)
           \<and> (\<forall>i<length blocks.
                 served E self w (batch_items dc) (batch_items dc ! i) = Some (blocks ! i))
           \<and> ((\<forall>b\<in>set blocks. length b = 1) \<longrightarrow>
                 length outs = length (batch_items dc)
                 \<and> (\<forall>i<length outs.
                       served E self w (batch_items dc) (batch_items dc ! i) = Some [outs ! i]))"
proof -
  from assms(1) have run: "transform_loop E self w (dc_iter dc) [] = (Inr outs, w')"
    by (simp add: transform_with_cache_def)
  from assms(2) have rt:
    "\<forall>t\<in>set (dc_iter dc). round_trips E (unit_transform E (wrapped self) [item t])"
    by (simp add: batch_items_def)
  from loop_served[OF run rt] obtain blocks where
    m: "map (served E self w (batch_items dc)) (batch_items dc) = map Some blocks"
    and outs: "outs = concat blocks"
    by (auto simp: batch_items_def)
  from m have len: "length blocks = length (batch_items dc)"
    by (metis length_map)
  have nth: "\<forall>i<length blocks.
      served E self w (batch_items dc) (batch_items dc ! i) = Some (blocks ! i)"
  proof (intro allI impI)
    fix i assume i: "i < length blocks"
    with len have "map (served E self w (batch_items dc)) (batch_items dc) ! i =
        served E self w (batch_items dc) (batch_items dc ! i)" by simp
    moreover from i have "map Some blocks ! i = Some (blocks ! i)" by simp
    ultimately show "served E self w (batch_items dc) (batch_items dc ! i) = Some (blocks ! i)"
      using m by simp
  qed
  have single: "(\<forall>b\<in>set blocks. length b = 1) \<longrightarrow>
       length outs = length (batch_items dc)
       \<and> (\<forall>i<length outs.
             served E self w (batch_items dc) (batch_items dc ! i) = Some [outs ! i])"
  proof
    assume "\<forall>b\<in>set blocks. length b = 1"
    from concat_singletons[OF this] len nth outs
    show "length outs = length (batch_items dc)
       \<and> (\<forall>i<length outs.
             served E self w (batch_items dc) (batch_items dc ! i) = Some [outs ! i])"
      by simp
  qed
  from outs len nth single show ?thesis by blast
qed

text \<open>An instance: entries for the first and third of four items, none for the second and fourth.\<close>

theorem outputs_follow_input_order_witness:
  "fst (transform_with_cache toy_env toy_self toy_half (toy_batch ''abcd'')) = Inr ''XBZd''
   \<and> batch_items (toy_batch ''abcd'') = ''abcd''
   \<and> round_trips toy_env (unit_transform toy_env (wrapped toy_self) ''b'')
   \<and> round_trips toy_env (unit_transform toy_env (wrapped toy_self) ''d'')
   \<and> map (served toy_env toy_self toy_half ''abcd'') ''abcd'' =
       [Some ''X'', Some ''B'', Some ''Z'', Some ''d'']
   \<and> (\<exists>blocks. ''XBZd'' = concat blocks
        \<and> length blocks = length ''abcd''
        \<and> (\<forall>i<length blocks.
              served toy_env toy_self toy_half ''abcd'' (''abcd'' ! i) = Some (blocks ! i))
        \<and> ((\<forall>b\<in>set blocks. length b = 1) \<longrightarrow>
              length ''XBZd'' = length ''abcd''
              \<and> (\<forall>i<length ''XBZd''.
                    served toy_env toy_self toy_half ''abcd'' (''abcd'' ! i) =
                      Some [''XBZd'' ! i])))"
proof -
  let ?w' = "snd (transform_with_cache toy_env toy_self toy_half (toy_batch ''abcd''))"
  have r: "fst (transform_with_cache toy_env toy_self toy_half (toy_batch ''abcd'')) = Inr ''XBZd''"
    by (simp add: toy_half_def toy_defs os_defs op_defs)
  then have run: "transform_with_cache toy_env toy_self toy_half (toy_batch ''abcd'') =
      (Inr ''XBZd'', ?w')"
    by (metis prod.collapse)
  have items: "batch_items (toy_batch ''abcd'') = ''abcd''"
    by (simp add: toy_defs op_defs)
  have rt: "\<forall>x\<in>set ''abcd''.
      round_trips toy_env (unit_transform toy_env (wrapped toy_self) [x])"
    by (simp add: toy_defs op_defs)
  have sv: "map (served toy_env toy_self toy_half ''abcd'') ''abcd'' =
       [Some ''X'', Some ''B'', Some ''Z'', Some ''d'']"
    by (simp add: served_def cache_key_def toy_half_def toy_defs os_defs op_defs)
  from rt have rt': "\<forall>x\<in>set (batch_items (toy_batch ''abcd'')).
      round_trips toy_env (unit_transform toy_env (wrapped toy_self) [x])"
    unfolding items .
  note main = outputs_follow_input_order[OF run rt', unfolded items]
  from rt have "round_trips toy_env (unit_transform toy_env (wrapped toy_self) ''b'')"
    "round_trips toy_env (unit_transform toy_env (wrapped toy_self) ''d'')"
    by simp_all
  with r items sv main show ?thesis by (intro conjI)
qed

subsection \<open>C5: flushing needs the directory\<close>

text \<open>
Claim C5, as amended. \<open>flush_cache\<close> does not tolerate a missing checkpoint directory: when
  the checkpoint path does not exist the call fails with the error of \<^verbatim>\<open>shutil.rmtree\<close> and
  changes nothing. The error is \<^verbatim>\<open>FileNotFoundError\<close> when the directory, or a directory
  on the way to it, is missing, and \<^verbatim>\<open>NotADirectoryError\<close> when a regular file stands on
  the way or in its place. When the path names an existing directory, never goes up with
  \<^verbatim>\<open>..\<close> and ends in a name, \<open>flush_cache\<close> succeeds and leaves the directory empty and
  everything outside it as it was.
\<close>

theorem flush_cache_needs_directory:
  assumes "checkpoint_path self = Some cp"
  shows "(\<not> os_path_exists w cp \<longrightarrow>
            flush_cache self w = (Inl FileNotFoundError, w)
            \<or> flush_cache self w = (Inl NotADirectoryError, w))
       \<and> (cp = [] \<longrightarrow> flush_cache self w = (Inl FileNotFoundError, w))
       \<and> (\<forall>e. cp \<noteq> [] \<and> path_location (files w) (cwd w) cp = Inl e \<longrightarrow>
            flush_cache self w = (Inl e, w)
            \<and> (e = FileNotFoundError \<or> e = NotADirectoryError))
       \<and> (cp \<noteq> [] \<and> path_location (files w) (cwd w) cp = Inr l \<and> lookup (files w) l = None \<longrightarrow>
            flush_cache self w = (Inl FileNotFoundError, w))
       \<and> (\<forall>bs. cp \<noteq> [] \<and> path_location (files w) (cwd w) cp = Inr l
              \<and> lookup (files w) l = Some (File bs) \<longrightarrow>
            flush_cache self w = (Inl NotADirectoryError, w))
       \<and> (simple_path cp \<and> path_location (files w) (cwd w) cp = Inr l \<and> files w l = Some Dir \<longrightarrow>
          (\<exists>w'. flush_cache self w = (Inr (), w')
              \<and> files w' l = Some Dir
              \<and> (\<forall>q. take (length l) q = l \<and> q \<noteq> l \<longrightarrow> files w' q = None)
              \<and> (\<forall>q. take (length l) q \<noteq> l \<longrightarrow> files w' q = files w q)))"
proof -
  note fails = flush_cache_rmtree_fails[OF assms]
  have empty: "flush_cache self w = (Inl FileNotFoundError, w)" if "cp = []"
    using that fails[of w FileNotFoundError w] shutil_rmtree_fails(1)[of w] by simp
  have unresolved: "flush_cache self w = (Inl e, w) \<and> (e = FileNotFoundError \<or> e = NotADirectoryError)"
    if "cp \<noteq> []" "path_location (files w) (cwd w) cp = Inl e" for e
    using fails[OF shutil_rmtree_fails(2)[OF that]] resolve_errors[of "files w" _ "split_sep cp" e]
      that(2)
    by (simp add: path_location_def)
  have missing: "flush_cache self w = (Inl FileNotFoundError, w)"
    if "cp \<noteq> []" "path_location (files w) (cwd w) cp = Inr k" "lookup (files w) k = None" for k
    using fails[OF shutil_rmtree_fails(3)[OF that]] .
  have regular: "flush_cache self w = (Inl NotADirectoryError, w)"
    if "cp \<noteq> []" "path_location (files w) (cwd w) cp = Inr k" "lookup (files w) k = Some (File bs)"
    for k bs
    using fails[OF shutil_rmtree_fails(4)[OF that]] .
  have absent: "flush_cache self w = (Inl FileNotFoundError, w)
       \<or> flush_cache self w = (Inl NotADirectoryError, w)" if "\<not> os_path_exists w cp"
  proof (cases "cp = []")
    case True
    with empty show ?thesis by simp
  next
    case ne: False
    show ?thesis
    proof (cases "path_location (files w) (cwd w) cp")
      case (Inl e)
      with unresolved[OF ne Inl] show ?thesis by auto
    next
      case (Inr k)
      show ?thesis
      proof (cases "lookup (files w) k")
        case None
        with missing[OF ne Inr] show ?thesis by simp
      next
        case (Some n)
        show ?thesis
        proof (cases n)
          case Dir
          with that ne Inr Some show ?thesis by (simp add: os_path_exists_def)
        next
          case (File bs)
          with regular[OF ne Inr] Some show ?thesis by simp
        qed
      qed
    qed
  qed
  have there: "\<exists>w'. flush_cache self w = (Inr (), w')
              \<and> files w' l = Some Dir
              \<and> (\<forall>q. take (length l) q = l \<and> q \<noteq> l \<longrightarrow> files w' q = None)
              \<and> (\<forall>q. take (length l) q \<noteq> l \<longrightarrow> files w' q = files w q)"
    if "simple_path cp" "path_location (files w) (cwd w) cp = Inr l" "files w l = Some Dir"
    using flush_simple_path[OF assms that] by auto
  from empty unresolved missing regular absent there show ?thesis by blast
qed

text \<open>
An instance of each case: the directory is missing, a regular file stands where the cache
  folder should be, and the directory is there, with two entries in it.
\<close>

theorem flush_cache_needs_directory_witness:
  "checkpoint_path toy_self = Some ''cache/s/v''
   \<and> \<not> os_path_exists toy_bare ''cache/s/v''
   \<and> path_location (files toy_bare) (cwd toy_bare) ''cache/s/v'' = Inl FileNotFoundError
   \<and> flush_cache toy_self toy_bare = (Inl FileNotFoundError, toy_bare)
   \<and> \<not> os_path_exists toy_blocked ''cache/s/v''
   \<and> path_location (files toy_blocked) (cwd toy_blocked) ''cache/s/v'' = Inl NotADirectoryError
   \<and> flush_cache toy_self toy_blocked = (Inl NotADirectoryError, toy_blocked)
   \<and> simple_path ''cache/s/v''
   \<and> path_location (files toy_half) (cwd toy_half) ''cache/s/v'' = Inr [''cache'', ''s'', ''v'']
   \<and> files toy_half [''cache'', ''s'', ''v''] = Some Dir
   \<and> files toy_half [''cache'', ''s'', ''v'', ''a.pickle''] = Some (File ''PX.'')
   \<and> (\<exists>w'. flush_cache toy_self toy_half = (Inr (), w')
         \<and> files w' [''cache'', ''s'', ''v''] = Some Dir
         \<and> files w' [''cache'', ''s'', ''v'', ''a.pickle''] = None
         \<and> files w' [''cache'', ''s''] = Some Dir)"
proof -
  have cp: "checkpoint_path toy_self = Some ''cache/s/v''" by (simp add: toy_defs)
  have gone: "\<not> os_path_exists toy_bare ''cache/s/v''" by (simp add: toy_defs os_defs)
  have nf: "path_location (files toy_bare) (cwd toy_bare) ''cache/s/v'' = Inl FileNotFoundError"
    by (simp add: toy_defs os_defs)
  have blocked: "\<not> os_path_exists toy_blocked ''cache/s/v''"
    by (simp add: toy_blocked_def toy_defs os_defs)
  have nd: "path_location (files toy_blocked) (cwd toy_blocked) ''cache/s/v'' = Inl NotADirectoryError"
    by (simp add: toy_blocked_def toy_defs os_defs)
  have sp: "simple_path ''cache/s/v''" by (simp add: simple_path_def os_defs)
  have there: "path_location (files toy_half) (cwd toy_half) ''cache/s/v'' = Inr [''cache'', ''s'', ''v'']"
    "files toy_half [''cache'', ''s'', ''v''] = Some Dir"
    by (simp_all add: toy_half_def toy_defs os_defs)
  have a: "files toy_half [''cache'', ''s'', ''v'', ''a.pickle''] = Some (File ''PX.'')"
    "files toy_half [''cache'', ''s''] = Some Dir"
    by (simp_all add: toy_half_def toy_defs)
  note main = flush_cache_needs_directory[OF cp, of toy_bare "[]"]
    flush_cache_needs_directory[OF cp, of toy_blocked "[]"]
    flush_cache_needs_directory[OF cp, of toy_half "[''cache'', ''s'', ''v'']"]
  from main(1) nf have miss: "flush_cache toy_self toy_bare = (Inl FileNotFoundError, toy_bare)"
    by simp
  from main(2) nd have block: "flush_cache toy_self toy_blocked = (Inl NotADirectoryError, toy_blocked)"
    by simp
  from main(3) sp there obtain w' where w': "flush_cache toy_self toy_half = (Inr (), w')"
    "files w' [''cache'', ''s'', ''v''] = Some Dir"
    "\<forall>q. take (length [''cache'', ''s'', ''v'']) q = [''cache'', ''s'', ''v'']
        \<and> q \<noteq> [''cache'', ''s'', ''v''] \<longrightarrow> files w' q = None"
    "\<forall>q. take (length [''cache'', ''s'', ''v'']) q \<noteq> [''cache'', ''s'', ''v'']
        \<longrightarrow> files w' q = files toy_half q"
    by blast
  from w'(3) have "files w' [''cache'', ''s'', ''v'', ''a.pickle''] = None" by simp
  moreover from w'(4) a(2) have "files w' [''cache'', ''s''] = Some Dir" by simp
  ultimately show ?thesis using cp gone nf miss blocked nd block sp there a w'(1,2) by blast
qed

text \<open>
The claim as stated has \<open>flush_cache\<close> succeed when the directory is missing. It raises,
  and no directory is made.
\<close>

theorem flush_missing_directory_counterexample:
  "\<not> os_path_exists toy_bare ''cache/s/v''
   \<and> checkpoint_path toy_self = Some ''cache/s/v''
   \<and> flush_cache toy_self toy_bare = (Inl FileNotFoundError, toy_bare)"
  by (simp add: toy_defs os_defs op_defs)

text \<open>
A path that goes up is left out of the last case for a reason. With the step path
  \<^verbatim>\<open>s/v/..\<close> the checkpoint path \<^verbatim>\<open>cache/s/v/../v\<close> names the existing directory, and
  \<^verbatim>\<open>shutil.rmtree\<close> removes it, but \<^verbatim>\<open>os.mkdir\<close> on the same path then finds the directory
  it has to pass through gone.
\<close>

lemma flush_path_going_up:
  "checkpoint_path dotdot_self = Some ''cache/s/v/../v''
   \<and> os_path_exists toy_half ''cache/s/v/../v''
   \<and> fst (flush_cache dotdot_self toy_half) = Inl FileNotFoundError
   \<and> files (snd (flush_cache dotdot_self toy_half)) [''cache'', ''s'', ''v''] = None"
  by (simp add: dotdot_self_def toy_half_def toy_defs os_defs op_defs)

subsection \<open>C6: what survives a flush\<close>




subsection \<open>C7: an entry that cannot be deserialized\<close>

text \<open>
Claim C7. Let the cache file of \<open>x\<close> exist and hold bytes that \<^verbatim>\<open>pickle.load\<close> rejects with
  \<open>err\<close>. Then \<open>read_cache\<close> fails with \<open>err\<close>. A \<open>handle_transform\<close> on a batch that contains
  \<open>x\<close> fails; the file is still there with the same bytes afterwards and the wrapped unit
  has not been called on \<open>x\<close>. When the items before \<open>x\<close> went through, the call fails with
  \<open>err\<close> itself.
\<close>

theorem corrupt_entry_fails_transform:
  assumes path: "get_cache_path_for self x = Inr p"
    and opened: "open_rb w p = Inr bs"
    and bad: "pickle_load E bs = Inl err"
    and inb: "x \<in> set (batch_items dc)"
  shows "read_cache E self w x = Inl err
       \<and> (\<exists>e' w'. handle_transform E self w dc = (Inl e', w')
             \<and> open_rb w' p = Inr bs
             \<and> x \<notin> set (transform_calls (drop (length (log w)) (log w'))))
       \<and> (\<forall>pre i e post outs_pre w1.
             dc_iter dc = pre @ (i, x, e) # post
             \<and> transform_loop E self w pre [] = (Inr outs_pre, w1)
             \<longrightarrow> handle_transform E self w dc = (Inl err, w1))"
proof -
  from entry_file[OF path opened] have
    f: "files w (cache_key self w x) = Some (File bs)" and k: "cache_key self w x \<noteq> []"
    and rch: "reach self w x" by simp_all
  from path obtain cp where cp: "checkpoint_path self = Some cp"
    by (cases "checkpoint_path self") (auto simp: get_cache_path_for_def)
  have r: "read_cache E self w x = Inl err"
    using path opened bad by (simp add: read_cache_def)
  from inb have "x \<in> item ` set (dc_iter dc)" by (simp add: batch_items_def)
  from loop_corrupt[OF cp bad k f refl rch this, of "[]"] obtain e' w' evs where
    l: "transform_loop E self w (dc_iter dc) [] = (Inl e', w')" "cwd w' = cwd w"
    "files w' (cache_key self w x) = Some (File bs)" "log w' = log w @ evs"
    "x \<notin> set (transform_calls evs)"
    and d: "\<forall>q. (files w' q = Some Dir) = (files w q = Some Dir)"
    by blast
  have kk: "cache_key self w' x = cache_key self w x" by (rule cache_key_cwd) (rule l(2))
  have "reach self w' x" using reach_dirs[OF l(2) d, of self x] rch by simp
  with l(3) k kk have "open_rb w' p = Inr bs" using file_open[OF path, of w' bs] by simp
  with l have any: "\<exists>e' w'. handle_transform E self w dc = (Inl e', w')
             \<and> open_rb w' p = Inr bs
             \<and> x \<notin> set (transform_calls (drop (length (log w)) (log w')))"
    by (simp add: handle_transform_def transform_with_cache_def)
  have first: "\<forall>pre i e post outs_pre w1.
             dc_iter dc = pre @ (i, x, e) # post
             \<and> transform_loop E self w pre [] = (Inr outs_pre, w1)
             \<longrightarrow> handle_transform E self w dc = (Inl err, w1)"
  proof (intro allI impI, elim conjE)
    fix pre i e post outs_pre w1
    assume batch: "dc_iter dc = pre @ (i, x, e) # post"
      and pre: "transform_loop E self w pre [] = (Inr outs_pre, w1)"
    from loop_frame[OF pre] f
    have fr: "cwd w1 = cwd w" "\<forall>q. (files w1 q = Some Dir) = (files w q = Some Dir)"
      "files w1 (cache_key self w x) = files w (cache_key self w x)"
      by auto
    have "contains_cache_for self w x = Inr True" using file_read(2)[OF rch f k] .
    with read_contains_stable(1)[OF fr rch, of E] read_contains_stable(2)[OF fr] r
    have "read_cache E self w1 x = Inl err" "contains_cache_for self w1 x = Inr True"
      by simp_all
    then have "transform_loop E self w1 ((i, x, e) # post) outs_pre = (Inl err, w1)" by simp
    with pre have "transform_loop E self w (pre @ (i, x, e) # post) [] = (Inl err, w1)"
      by (simp add: loop_append)
    then show "handle_transform E self w dc = (Inl err, w1)"
      by (simp add: handle_transform_def transform_with_cache_def batch)
  qed
  from r any first show ?thesis by blast
qed

text \<open>An instance: the entry of the second of three items is cut short.\<close>

theorem corrupt_entry_fails_transform_witness:
  "get_cache_path_for toy_self CHR ''b'' = Inr ''cache/s/v/b.pickle''
   \<and> open_rb toy_corrupt ''cache/s/v/b.pickle'' = Inr ''PB''
   \<and> pickle_load toy_env ''PB'' = Inl EOFError
   \<and> CHR ''b'' \<in> set (batch_items (toy_batch ''abc''))
   \<and> read_cache toy_env toy_self toy_corrupt CHR ''b'' = Inl EOFError
   \<and> fst (handle_transform toy_env toy_self toy_corrupt (toy_batch ''abc'')) = Inl EOFError
   \<and> open_rb (snd (handle_transform toy_env toy_self toy_corrupt (toy_batch ''abc'')))
        ''cache/s/v/b.pickle'' = Inr ''PB''
   \<and> transform_calls (log (snd (handle_transform toy_env toy_self toy_corrupt
        (toy_batch ''abc'')))) = ''a''"
proof -
  have path: "get_cache_path_for toy_self CHR ''b'' = Inr ''cache/s/v/b.pickle''"
    by (simp add: toy_defs os_defs op_defs)
  have opened: "open_rb toy_corrupt ''cache/s/v/b.pickle'' = Inr ''PB''"
    by (simp add: toy_corrupt_def toy_defs os_defs)
  have bad: "pickle_load toy_env ''PB'' = Inl EOFError"
    by (simp add: toy_defs)
  have inb: "CHR ''b'' \<in> set (batch_items (toy_batch ''abc''))"
    by (simp add: toy_defs op_defs)
  have run: "fst (handle_transform toy_env toy_self toy_corrupt (toy_batch ''abc'')) = Inl EOFError"
    by (simp add: toy_corrupt_def toy_defs os_defs op_defs)
  have calls: "transform_calls (log (snd (handle_transform toy_env toy_self toy_corrupt
        (toy_batch ''abc'')))) = ''a''"
    by (simp add: toy_corrupt_def toy_defs os_defs op_defs)
  from corrupt_entry_fails_transform[OF path opened bad inb] path opened bad inb run calls
  show ?thesis by auto
qed

subsection \<open>C8: a write that fails\<close>

text \<open>
Claim C8, as amended. A \<open>write_cache\<close> that fails either changes nothing (it failed
  before the file was opened) or failed in the serializer, and then the file of the item
  has been created or truncated and holds the bytes written before the failure:
  \<open>contains_cache_for\<close> answers \<open>True\<close> and \<open>read_cache\<close> gives what \<^verbatim>\<open>pickle.load\<close> makes of
  those bytes.
\<close>

theorem failed_write_outcomes:
  assumes "write_cache E self w x y = (Inl err, w')"
  shows "w' = w
       \<or> (snd (pickle_dump E y) = Some err
            \<and> w' = w\<lparr>files := (files w)(cache_key self w x \<mapsto> File (fst (pickle_dump E y))),
                      log := log w @ [EWrite x]\<rparr>
            \<and> contains_cache_for self w' x = Inr True
            \<and> read_cache E self w' x = pickle_load E (fst (pickle_dump E y)))"
proof (cases "get_cache_path_for self x")
  case (Inl e)
  with assms show ?thesis by (simp add: write_cache_def)
next
  case (Inr p)
  then obtain cp where cp: "checkpoint_path self = Some cp"
    by (cases "checkpoint_path self") (auto simp: get_cache_path_for_def)
  have key: "cache_key self w x = location (cwd w) p" using Inr by (simp add: cache_key_def)
  obtain r w1 where o: "open_wb w p = (r, w1)" by fastforce
  from open_wb_result[OF o] show ?thesis
  proof
    assume "\<exists>e. r = Inl e \<and> w1 = w"
    with assms Inr o show ?thesis by (auto simp: write_cache_def)
  next
    assume ok: "p \<noteq> [] \<and> path_location (files w) (cwd w) p = Inr (location (cwd w) p)
            \<and> location (cwd w) p \<noteq> [] \<and> lookup (files w) (location (cwd w) p) \<noteq> Some Dir
            \<and> r = Inr (location (cwd w) p)
            \<and> w1 = w\<lparr>files := (files w)(location (cwd w) p \<mapsto> File [])\<rparr>"
    let ?w2 = "w\<lparr>files := (files w)(cache_key self w x \<mapsto> File (fst (pickle_dump E y))),
                      log := log w @ [EWrite x]\<rparr>"
    from assms Inr o ok key have e: "snd (pickle_dump E y) = Some err" and w': "w' = ?w2"
      by (auto simp: write_cache_def Let_def file_write_def split: option.splits)
    have rch: "reach self w x" using Inr ok by (simp add: reach_def)
    have k: "cache_key self w x \<noteq> []" "lookup (files w) (cache_key self w x) \<noteq> Some Dir"
      using ok key by simp_all
    from written_entry(1)[OF rch k, where E = E and b = "fst (pickle_dump E y)"
        and lg = "log w @ [EWrite x]"]
      written_entry(2)[OF rch k, where b = "fst (pickle_dump E y)" and lg = "log w @ [EWrite x]"]
    have "read_cache E self ?w2 x = pickle_load E (fst (pickle_dump E y))"
      "contains_cache_for self ?w2 x = Inr True"
      by simp_all
    with e w' show ?thesis by simp
  qed
qed

text \<open>An instance of both cases.\<close>

theorem failed_write_outcomes_witness:
  "write_cache toy_env toy_new toy_world CHR ''a'' ''A'' = (Inl AttributeError, toy_world)
   \<and> fst (write_cache toy_env toy_self toy_half CHR ''a'' ''!'') = Inl PicklingError
   \<and> snd (write_cache toy_env toy_self toy_half CHR ''a'' ''!'') \<noteq> toy_half
   \<and> snd (pickle_dump toy_env ''!'') = Some PicklingError
   \<and> contains_cache_for toy_self (snd (write_cache toy_env toy_self toy_half CHR ''a'' ''!''))
        CHR ''a'' = Inr True
   \<and> read_cache toy_env toy_self (snd (write_cache toy_env toy_self toy_half CHR ''a'' ''!''))
        CHR ''a'' = pickle_load toy_env (fst (pickle_dump toy_env ''!''))"
proof -
  let ?w' = "snd (write_cache toy_env toy_self toy_half CHR ''a'' ''!'')"
  have early: "write_cache toy_env toy_new toy_world CHR ''a'' ''A'' = (Inl AttributeError, toy_world)"
    by (simp add: toy_defs op_defs)
  have f: "fst (write_cache toy_env toy_self toy_half CHR ''a'' ''!'') = Inl PicklingError"
    by (simp add: toy_half_def toy_defs os_defs op_defs)
  then have run: "write_cache toy_env toy_self toy_half CHR ''a'' ''!'' = (Inl PicklingError, ?w')"
    by (metis prod.collapse)
  have "log ?w' \<noteq> log toy_half"
    by (simp add: toy_half_def toy_defs os_defs op_defs)
  then have changed: "?w' \<noteq> toy_half" by auto
  from failed_write_outcomes[OF run] changed
  have "snd (pickle_dump toy_env ''!'') = Some PicklingError
      \<and> contains_cache_for toy_self ?w' CHR ''a'' = Inr True
      \<and> read_cache toy_env toy_self ?w' CHR ''a'' = pickle_load toy_env (fst (pickle_dump toy_env ''!''))"
    by blast
  with early f changed show ?thesis by blast
qed

text \<open>
The claim as stated has a failed write leave the entry absent or as it was. Here an
  output that cannot be pickled leaves an empty file where there was none, and in place
  of a good entry: the item is reported as cached and reading it fails.
\<close>

theorem failed_write_leaves_broken_entry_counterexample:
  "contains_cache_for toy_self toy_world CHR ''a'' = Inr False
   \<and> fst (write_cache toy_env toy_self toy_world CHR ''a'' ''!'') = Inl PicklingError
   \<and> contains_cache_for toy_self (snd (write_cache toy_env toy_self toy_world CHR ''a'' ''!''))
        CHR ''a'' = Inr True
   \<and> read_cache toy_env toy_self (snd (write_cache toy_env toy_self toy_world CHR ''a'' ''!''))
        CHR ''a'' = Inl EOFError
   \<and> read_cache toy_env toy_self toy_half CHR ''a'' = Inr ''X''
   \<and> fst (write_cache toy_env toy_self toy_half CHR ''a'' ''!'') = Inl PicklingError
   \<and> read_cache toy_env toy_self (snd (write_cache toy_env toy_self toy_half CHR ''a'' ''!''))
        CHR ''a'' = Inl EOFError"
  by (simp add: toy_half_def toy_defs os_defs op_defs)

subsection \<open>C9: no cache operation before the set-up\<close>

text \<open>
Claim C9. The attribute \<open>checkpoint_path\<close> does not exist after \<open>__init__\<close>; \<open>setup\<close> sets
  it, through \<open>create_checkpoint_path\<close>, whatever becomes of the directory;
  \<open>handle_fit_transform\<close> leaves it alone, and the other operations cannot change the
  object at all. While the attribute does not exist, \<open>get_cache_path_for\<close>, \<open>flush_cache\<close>,
  \<open>read_cache\<close>, \<open>write_cache\<close> and \<open>contains_cache_for\<close> all fail with \<^verbatim>\<open>AttributeError\<close>
  and change nothing.
\<close>

theorem cache_operations_need_setup:
  "checkpoint_path (init E u folder hasher) = None
   \<and> checkpoint_path (fst (snd (setup_step E self w step_path))) =
       Some (os_path_join (os_path_join (cache_folder self) step_path) (VALUE_CACHING E))
   \<and> checkpoint_path (fst (snd (handle_fit_transform E self w dc))) = checkpoint_path self
   \<and> (checkpoint_path self = None \<longrightarrow>
         get_cache_path_for self x = Inl AttributeError
       \<and> flush_cache self w = (Inl AttributeError, w)
       \<and> read_cache E self w x = Inl AttributeError
       \<and> write_cache E self w x y = (Inl AttributeError, w)
       \<and> contains_cache_for self w x = Inl AttributeError)"
proof -
  have "checkpoint_path (init E u folder hasher) = None" by (simp add: init_def)
  moreover have "checkpoint_path (fst (snd (setup_step E self w step_path))) =
       Some (os_path_join (os_path_join (cache_folder self) step_path) (VALUE_CACHING E))"
    by (simp add: setup_step_def create_checkpoint_path_def Let_def split: prod.splits sum.splits)
  moreover have "checkpoint_path (fst (snd (handle_fit_transform E self w dc))) = checkpoint_path self"
    by (simp add: handle_fit_transform_def Let_def split: prod.splits sum.splits)
  moreover have "checkpoint_path self = None \<longrightarrow>
         get_cache_path_for self x = Inl AttributeError
       \<and> flush_cache self w = (Inl AttributeError, w)
       \<and> read_cache E self w x = Inl AttributeError
       \<and> write_cache E self w x y = (Inl AttributeError, w)
       \<and> contains_cache_for self w x = Inl AttributeError"
    by (simp add: get_cache_path_for_def flush_cache_def read_cache_def write_cache_def
        contains_cache_for_def)
  ultimately show ?thesis by blast
qed

text \<open>An instance: a fresh wrapper, and the same wrapper once set up.\<close>

theorem cache_operations_need_setup_witness:
  "checkpoint_path toy_new = None
   \<and> flush_cache toy_new toy_bare = (Inl AttributeError, toy_bare)
   \<and> read_cache toy_env toy_new toy_bare CHR ''a'' = Inl AttributeError
   \<and> write_cache toy_env toy_new toy_bare CHR ''a'' ''A'' = (Inl AttributeError, toy_bare)
   \<and> contains_cache_for toy_new toy_bare CHR ''a'' = Inl AttributeError
   \<and> setup_step toy_env toy_new toy_bare ''s'' = (Inr (), toy_self, toy_world)
   \<and> contains_cache_for toy_self toy_world CHR ''a'' = Inr False"
proof -
  have none: "checkpoint_path toy_new = None" by (simp add: toy_defs)
  have "setup_step toy_env toy_new toy_bare ''s'' = (Inr (), toy_self, toy_world)"
    by (simp add: toy_defs os_defs op_defs os_makedirs.simps)
  moreover have "contains_cache_for toy_self toy_world CHR ''a'' = Inr False"
    by (simp add: toy_defs os_defs op_defs)
  ultimately show ?thesis
    using none cache_operations_need_setup[of toy_env shout None None toy_new toy_bare "''s''"
        "toy_batch ''a''" "CHR ''a''" "''A''"]
    by simp
qed

subsection \<open>C10: items with the same hash value share an entry\<close>

text \<open>
Claim C10. Let \<open>a\<close> and \<open>b\<close> have the same hash value and let the cache hold the output
  \<open>ya\<close> for \<open>a\<close>. In a batch that goes through and contains \<open>b\<close>, the item \<open>b\<close> is served
  \<open>ya\<close>: the step for \<open>b\<close> appends \<open>ya\<close> to the outputs without changing the world, and the
  wrapped unit is not called on \<open>b\<close> during the call.
\<close>

theorem hash_collision_serves_first_writer:
  assumes same: "value_hasher self a = value_hasher self b"
    and cached: "contains_cache_for self w a = Inr True" "read_cache E self w a = Inr ya"
    and batch: "dc_iter dc = pre @ (i, b, e) # post"
    and run: "transform_with_cache E self w dc = (Inr outs, w')"
  shows "\<exists>outs_pre w1.
           transform_loop E self w pre [] = (Inr outs_pre, w1)
         \<and> transform_loop E self w1 [(i, b, e)] outs_pre = (Inr (outs_pre @ ya), w1)
         \<and> transform_loop E self w1 post (outs_pre @ ya) = (Inr outs, w')
         \<and> b \<notin> set (transform_calls (drop (length (log w)) (log w')))"
proof -
  from contains_True_path[OF cached(1)] obtain cp where cp: "checkpoint_path self = Some cp" ..
  note ab = same_path_same_answers[OF same_hash_same_path[OF same]]
  from run batch have whole: "transform_loop E self w (pre @ (i, b, e) # post) [] = (Inr outs, w')"
    by (simp add: transform_with_cache_def)
  then obtain outs_pre w1 where pre: "transform_loop E self w pre [] = (Inr outs_pre, w1)"
    and rest: "transform_loop E self w1 ((i, b, e) # post) outs_pre = (Inr outs, w')"
    unfolding loop_append by (auto split: prod.splits sum.splits)
  from read_success[OF cached(2)] obtain bs where
    bs: "files w (cache_key self w a) = Some (File bs)" "cache_key self w a \<noteq> []"
    "pickle_load E bs = Inr ya" and rch: "reach self w a" by blast
  from loop_frame[OF pre] bs(1)
  have fr: "cwd w1 = cwd w" "\<forall>q. (files w1 q = Some Dir) = (files w q = Some Dir)"
    "files w1 (cache_key self w a) = files w (cache_key self w a)"
    by auto
  from read_contains_stable(1)[OF fr rch, of E] read_contains_stable(2)[OF fr] cached
  have "read_cache E self w1 a = Inr ya" "contains_cache_for self w1 a = Inr True" by simp_all
  then have b1: "read_cache E self w1 b = Inr ya" "contains_cache_for self w1 b = Inr True"
    using ab(1)[of w1] ab(2)[of E w1] by simp_all
  then have one: "transform_loop E self w1 [(i, b, e)] outs_pre = (Inr (outs_pre @ ya), w1)"
    by simp
  from rest b1 have post: "transform_loop E self w1 post (outs_pre @ ya) = (Inr outs, w')"
    by simp
  have "has_entry (files w) (cache_key self w b)"
    using bs(1,2) ab(3)[of w] by (simp add: has_entry_def lookup_def)
  then have "b \<notin> set (misses (cache_key self w) (has_entry (files w))
      (map item (pre @ (i, b, e) # post)))"
    using misses_absent by fastforce
  then have "b \<notin> set (transform_calls (drop (length (log w)) (log w')))"
    unfolding new_calls[OF whole] .
  with pre one post show ?thesis by blast
qed

text \<open>An instance: the unit would turn \<open>b\<close> into \<open>B\<close>, the cache answers with the output of \<open>a\<close>.\<close>

theorem hash_collision_serves_first_writer_witness:
  "value_hasher same_hash_self CHR ''a'' = value_hasher same_hash_self CHR ''b''
   \<and> fst (transform_with_cache toy_env same_hash_self toy_world (toy_batch ''a'')) = Inr ''A''
   \<and> read_cache toy_env same_hash_self
        (snd (transform_with_cache toy_env same_hash_self toy_world (toy_batch ''a''))) CHR ''a''
      = Inr ''A''
   \<and> transform_with_cache toy_env same_hash_self
        (snd (transform_with_cache toy_env same_hash_self toy_world (toy_batch ''a'')))
        (toy_batch ''b'')
      = (Inr ''A'', snd (transform_with_cache toy_env same_hash_self toy_world (toy_batch ''a'')))
   \<and> unit_transform toy_env (wrapped same_hash_self) ''b'' = ''B''"
proof -
  let ?w = "snd (transform_with_cache toy_env same_hash_self toy_world (toy_batch ''a''))"
  let ?w' = "snd (transform_with_cache toy_env same_hash_self ?w (toy_batch ''b''))"
  have first: "fst (transform_with_cache toy_env same_hash_self toy_world (toy_batch ''a'')) = Inr ''A''"
    by (simp add: same_hash_self_def toy_defs os_defs op_defs)
  have same: "value_hasher same_hash_self CHR ''a'' = value_hasher same_hash_self CHR ''b''"
    by (simp add: same_hash_self_def)
  have c: "contains_cache_for same_hash_self ?w CHR ''a'' = Inr True"
    by (simp add: same_hash_self_def toy_defs os_defs op_defs)
  have r: "read_cache toy_env same_hash_self ?w CHR ''a'' = Inr ''A''"
    by (simp add: same_hash_self_def toy_defs os_defs op_defs)
  have batch: "dc_iter (toy_batch ''b'') = [] @ (''id'', CHR ''b'', CHR ''b'') # []"
    by (simp add: toy_defs op_defs)
  have "fst (transform_with_cache toy_env same_hash_self ?w (toy_batch ''b'')) = Inr ''A''"
    by (simp add: same_hash_self_def toy_defs os_defs op_defs)
  then have run: "transform_with_cache toy_env same_hash_self ?w (toy_batch ''b'') = (Inr ''A'', ?w')"
    by (metis prod.collapse)
  from hash_collision_serves_first_writer[OF same c r batch run]
  have "transform_loop toy_env same_hash_self ?w [(''id'', CHR ''b'', CHR ''b'')] [] = (Inr ''A'', ?w)"
    by auto
  then have "transform_with_cache toy_env same_hash_self ?w (toy_batch ''b'') = (Inr ''A'', ?w)"
    by (simp add: transform_with_cache_def toy_batch_def dc_iter_def)
  moreover have "unit_transform toy_env (wrapped same_hash_self) ''b'' = ''B''"
    by (simp add: same_hash_self_def toy_defs)
  ultimately show ?thesis using first same r by simp
qed

end
